theory Spec2Isabelle
  imports Main
begin

section \<open>Arbitrary-precision integers and their partial operations\<close>

text \<open>
  Both engines convert their arguments with \<^verbatim>\<open>BigInt(...)\<close> and compute on
  \<^verbatim>\<open>bigint\<close> values only, so the model works on \<^typ>\<open>int\<close>. An argument that is
  not integer-valued makes the conversion itself fail before any line modelled here runs;
  the model starts after the three conversions.

  The exceptions the code can raise are values of the type \<open>error\<close>:
  \<open>InvalidInput\<close> is the \<^verbatim>\<open>Error("All values must be positive integers")\<close> of
  \<^verbatim>\<open>canReach\<close>, \<open>RangeError\<close> is what \<^verbatim>\<open>/\<close> and \<^verbatim>\<open>%\<close> on
  \<^verbatim>\<open>bigint\<close> raise for a zero divisor and what \<^verbatim>\<open>Set.prototype.add\<close> raises
  on a full set, and \<open>TypeError\<close> is what destructuring the \<^verbatim>\<open>undefined\<close>
  returned by \<^verbatim>\<open>shift()\<close> on an empty array raises.
\<close>

datatype error = InvalidInput | RangeError | TypeError

text \<open>\<^verbatim>\<open>x / y\<close> on bigints: the quotient truncated towards zero.\<close>

definition bigint_div :: "int \<Rightarrow> int \<Rightarrow> error + int" where
  "bigint_div x y =
     (if y = 0 then Inl RangeError else Inr (sgn x * sgn y * (\<bar>x\<bar> div \<bar>y\<bar>)))"

text \<open>\<^verbatim>\<open>x % y\<close> on bigints: the remainder with the sign of the dividend.\<close>

definition bigint_rem :: "int \<Rightarrow> int \<Rightarrow> error + int" where
  "bigint_rem x y =
     (if y = 0 then Inl RangeError else Inr (sgn x * (\<bar>x\<bar> mod \<bar>y\<bar>)))"

section \<open>The Decision Engine\<close>

subsection \<open>\<^verbatim>\<open>gcd\<close>\<close>

text \<open>
  \<^verbatim>\<open>while (y !== 0n) { [x, y] = [y, x % y]; } return x;\<close>
\<close>

function gcd_loop :: "int \<Rightarrow> int \<Rightarrow> error + int" where
  "gcd_loop x y =
     (if y \<noteq> 0
      then (case bigint_rem x y of Inl e \<Rightarrow> Inl e | Inr r \<Rightarrow> gcd_loop y r)
      else Inr x)"
  by pat_completeness auto
termination
proof (relation "measure (\<lambda>(x, y). nat \<bar>y\<bar>)")
  show "wf (measure (\<lambda>(x, y). nat \<bar>y\<bar>))" by simp
next
  fix x y r :: int
  assume "y \<noteq> 0" and "bigint_rem x y = Inr r"
  then have "r = sgn x * (\<bar>x\<bar> mod \<bar>y\<bar>)"
    by (simp add: bigint_rem_def)
  then have "\<bar>r\<bar> \<le> \<bar>x\<bar> mod \<bar>y\<bar>"
    using \<open>y \<noteq> 0\<close> by (cases "x = 0") (simp_all add: abs_mult)
  moreover have "\<bar>x\<bar> mod \<bar>y\<bar> < \<bar>y\<bar>"
    using \<open>y \<noteq> 0\<close> by simp
  ultimately show "((y, r), (x, y)) \<in> measure (\<lambda>(x, y). nat \<bar>y\<bar>)"
    by simp
qed

declare gcd_loop.simps [simp del]

definition gcd_ts :: "int \<Rightarrow> int \<Rightarrow> error + int" where
  "gcd_ts x0 y0 =
     (let x = (if x0 < 0 then - x0 else x0);
          y = (if y0 < 0 then - y0 else y0)
      in gcd_loop x y)"

subsection \<open>\<^verbatim>\<open>canReach\<close>\<close>

text \<open>
  The body shared, word for word, by the two \<^verbatim>\<open>for\<close> loops of \<^verbatim>\<open>canReach\<close>:
  \<open>Inr True\<close> is the \<^verbatim>\<open>return true\<close>, \<open>Inr False\<close> falls through to the next
  \<^verbatim>\<open>n\<close>. The \<^verbatim>\<open>&&\<close> of the source evaluates its right operand only when the
  left one holds.
\<close>

definition try_n :: "int \<Rightarrow> int \<Rightarrow> int \<Rightarrow> int \<Rightarrow> error + bool" where
  "try_n a b c n =
     (let remainder = c - n * b in
      if remainder > 0 then
        (case bigint_rem remainder a of
           Inl e \<Rightarrow> Inl e
         | Inr r \<Rightarrow>
             if r = 0 then
               (case bigint_div remainder a of
                  Inl e \<Rightarrow> Inl e
                | Inr m \<Rightarrow>
                    if m \<ge> 1 then
                      (case gcd_ts m n of
                         Inl e \<Rightarrow> Inl e
                       | Inr g \<Rightarrow> Inr (g = 1))
                    else Inr False)
             else Inr False)
      else Inr False)"

text \<open>
  \<^verbatim>\<open>for (let n = lo; n <= hi; n++) { ... }\<close>: \<open>Inr True\<close> when the body returned
  true for some \<open>n\<close>, \<open>Inr False\<close> when the loop ran to its end.
\<close>

function search_window :: "int \<Rightarrow> int \<Rightarrow> int \<Rightarrow> int \<Rightarrow> int \<Rightarrow> error + bool" where
  "search_window a b c n hi =
     (if n \<le> hi then
        (case try_n a b c n of
           Inl e \<Rightarrow> Inl e
         | Inr found \<Rightarrow> if found then Inr True else search_window a b c (n + 1) hi)
      else Inr False)"
  by pat_completeness auto
termination
  by (relation "measure (\<lambda>(a, b, c, n, hi). nat (hi + 1 - n))") auto

declare search_window.simps [simp del]

definition canReach :: "int \<Rightarrow> int \<Rightarrow> int \<Rightarrow> error + bool" where
  "canReach a b c =
     (if a \<le> 0 \<or> b \<le> 0 \<or> c \<le> 0 then Inl InvalidInput
      else if c = a \<or> c = b then Inr True
      else if c < a \<and> c < b then Inr False
      else
        (case gcd_ts a b of
           Inl e \<Rightarrow> Inl e
         | Inr g \<Rightarrow>
        (case bigint_rem c g of
           Inl e \<Rightarrow> Inl e
         | Inr cg \<Rightarrow>
        if cg \<noteq> 0 then Inr False
        else
          let minAB = (if a < b then a else b);
              maxAB = (if a > b then a else b)
          in
          if c > minAB \<and> c < maxAB then Inr False
          else if c < a + b then Inr False
          else
            (case bigint_div (c - a) b of
               Inl e \<Rightarrow> Inl e
             | Inr maxN \<Rightarrow>
            let iterLimit = (if maxN < 10000 then maxN else 10000) in
            (case search_window a b c 1 iterLimit of
               Inl e \<Rightarrow> Inl e
             | Inr found \<Rightarrow>
            if found then Inr True
            else if c \<ge> a * b then
              (let startN = (if maxN > 10000 then maxN - 10000 else 1) in
               case search_window a b c startN maxN of
                 Inl e \<Rightarrow> Inl e
               | Inr found2 \<Rightarrow> if found2 then Inr True else Inr False)
            else Inr False)))))"

section \<open>The Reference Search Engine\<close>

subsection \<open>Keys of the visited set\<close>

text \<open>
  The visited set is a \<^verbatim>\<open>Set<string>\<close>; its keys are built by the template literal
  \<^verbatim>\<open>`${lo},${hi}`\<close>, which renders each bigint in decimal, with a leading
  \<^verbatim>\<open>-\<close> for a negative one.

  A \<^verbatim>\<open>Set\<close> of the engine the program runs on (Node.js, V8) holds at most
  \<open>2 ^ 24\<close> elements: \<^verbatim>\<open>add\<close> of a new element to a set of that size raises
  \<^verbatim>\<open>RangeError: Set maximum size exceeded\<close>. The number is the engine's, not the
  program's; the search reaches it when no cap stops it before.
\<close>

definition set_max_size :: nat where
  "set_max_size = 2 ^ 24"

definition digit_char :: "nat \<Rightarrow> char" where
  "digit_char d = ''0123456789'' ! d"

function dec_nat :: "nat \<Rightarrow> string" where
  "dec_nat n =
     (if n < 10 then [digit_char n] else dec_nat (n div 10) @ [digit_char (n mod 10)])"
  by pat_completeness auto
termination
  by (relation "measure (\<lambda>n. n)") auto

declare dec_nat.simps [simp del]

definition bigint_to_string :: "int \<Rightarrow> string" where
  "bigint_to_string i =
     (if i < 0 then CHR ''-'' # dec_nat (nat (- i)) else dec_nat (nat i))"

definition pair_key :: "int \<Rightarrow> int \<Rightarrow> string" where
  "pair_key lo hi = bigint_to_string lo @ '','' @ bigint_to_string hi"

subsection \<open>The search state\<close>

text \<open>
  \<open>queue\<close>, \<open>visited\<close> and \<open>iterations\<close> are the three variables of
  \<^verbatim>\<open>canReachBruteForce\<close>. The other two fields are history variables, which the
  code does not have and never reads: \<open>push_log\<close> gets one entry for each
  \<^verbatim>\<open>queue.push\<close>, the pair pushed and the visited set at that moment, and
  \<open>shift_log\<close> one entry for each \<^verbatim>\<open>queue.shift()\<close>. They make statements about
  the whole course of a call expressible on its final state.
\<close>

record bfs_state =
  queue :: "(int \<times> int) list"
  visited :: "string set"
  iterations :: int
  push_log :: "((int \<times> int) \<times> string set) list"
  shift_log :: "(int \<times> int) list"

text \<open>
  The state when the \<^verbatim>\<open>while\<close> loop is entered: the queue holds the start pair,
  whose key has been added to the visited set.
\<close>

definition bfs_init :: "int \<Rightarrow> int \<Rightarrow> bfs_state" where
  "bfs_init a b =
     (let startKey = (if a < b then pair_key a b else pair_key b a)
      in \<lparr>queue = [(a, b)], visited = insert startKey {}, iterations = 0,
          push_log = [], shift_log = []\<rparr>)"

subsection \<open>The loops\<close>

text \<open>
  The body of \<^verbatim>\<open>for (const [nx, ny] of [child1, child2])\<close>. The first component
  of the result says how the body ended: \<open>Some (Inr r)\<close> when the function returned
  \<open>r\<close> from inside the body, \<open>Some (Inl e)\<close> when the body raised \<open>e\<close> (which
  only \<^verbatim>\<open>visited.add(key)\<close> on a full set does), and \<open>None\<close> when control goes on
  (\<^verbatim>\<open>continue\<close>, or the end of the body).
\<close>

definition visit_child ::
  "int \<Rightarrow> int \<times> int \<Rightarrow> bfs_state \<Rightarrow> (error + bool) option \<times> bfs_state" where
  "visit_child c ch st =
     (case ch of (nx, ny) \<Rightarrow>
        if nx = c \<or> ny = c then (Some (Inr True), st)
        else if nx > c \<and> ny > c then (None, st)
        else
          let key = (if nx < ny then pair_key nx ny else pair_key ny nx) in
          if key \<notin> visited st then
            (if card (visited st) \<ge> set_max_size then (Some (Inl RangeError), st)
             else
               (let st1 = st\<lparr>visited := insert key (visited st)\<rparr>;
                    st2 = st1\<lparr>queue := queue st1 @ [(nx, ny)],
                             push_log := push_log st1 @ [((nx, ny), visited st1)]\<rparr>
                in (None, st2)))
          else (None, st))"

fun for_children ::
  "int \<Rightarrow> (int \<times> int) list \<Rightarrow> bfs_state \<Rightarrow> (error + bool) option \<times> bfs_state" where
  "for_children c [] st = (None, st)"
| "for_children c (ch # chs) st =
     (case visit_child c ch st of
        (Some r, st') \<Rightarrow> (Some r, st')
      | (None, st') \<Rightarrow> for_children c chs st')"

text \<open>
  \<^verbatim>\<open>maxIterations\<close> is a \<^verbatim>\<open>number\<close>, an IEEE double: besides the finite values
  there are \<^verbatim>\<open>Infinity\<close>, \<^verbatim>\<open>-Infinity\<close> and \<^verbatim>\<open>NaN\<close>. The finite values are
  taken integral here (against the integer counter a fractional cap acts as the integer
  below it). \<open>exceeds i n\<close> is the comparison \<^verbatim>\<open>iterations > maxIterations\<close>: it never
  holds for \<^verbatim>\<open>Infinity\<close>, nor for \<^verbatim>\<open>NaN\<close>, with which every comparison is false.
\<close>

datatype js_number = Num int | PosInfinity | NegInfinity | NaN

definition exceeds :: "int \<Rightarrow> js_number \<Rightarrow> bool" where
  "exceeds i n =
     (case n of Num m \<Rightarrow> m < i | PosInfinity \<Rightarrow> False | NegInfinity \<Rightarrow> True | NaN \<Rightarrow> False)"

text \<open>
  The counter \<^verbatim>\<open>iterations\<close> is a \<^verbatim>\<open>number\<close> as well. It starts at 0 and
  \<^verbatim>\<open>iterations++\<close> is exact up to \<open>2 ^ 53\<close>; there \<open>2 ^ 53 + 1\<close> is not a double
  and rounds back to \<open>2 ^ 53\<close>, so the counter stays.
\<close>

definition increment :: "int \<Rightarrow> int" where
  "increment i = (if i < 2 ^ 53 then i + 1 else i)"

text \<open>
  The \<^verbatim>\<open>while (queue.length > 0)\<close> loop. The cap need not trigger, so the loop
  is written as a partial function, for which ending is a theorem and not a premise:
  \<open>None\<close> would be a run that never ends, \<open>Some (Inr r, st)\<close> is a run that returns
  the boolean \<open>r\<close> and \<open>Some (Inl e, st)\<close> one that raises \<open>e\<close>, each with the state
  \<open>st\<close> at that moment.
\<close>

partial_function (option)
  bfs_loop :: "int \<Rightarrow> js_number \<Rightarrow> bfs_state \<Rightarrow> ((error + bool) \<times> bfs_state) option" where
  "bfs_loop c maxIterations st =
     (if length (queue st) > 0 then
        (let st1 = st\<lparr>iterations := increment (iterations st)\<rparr> in
         if exceeds (iterations st1) maxIterations then Some (Inr False, st1)
         else
           (case queue st1 of
              [] \<Rightarrow> Some (Inl TypeError, st1)
            | (x, y) # rest \<Rightarrow>
                (let st2 = st1\<lparr>queue := rest, shift_log := shift_log st1 @ [(x, y)]\<rparr>;
                     child1 = (x + y, y);
                     child2 = (x, x + y)
                 in case for_children c [child1, child2] st2 of
                      (Some r, st3) \<Rightarrow> Some (r, st3)
                    | (None, st3) \<Rightarrow> bfs_loop c maxIterations st3)))
      else Some (Inr False, st))"

definition default_maxIterations :: js_number where
  "default_maxIterations = Num 1000000"

definition canReachBruteForce ::
  "int \<Rightarrow> int \<Rightarrow> int \<Rightarrow> js_number \<Rightarrow> (error + bool) option" where
  "canReachBruteForce a b c maxIterations =
     (if c = a \<or> c = b then Some (Inr True)
      else if c < a \<and> c < b then Some (Inr False)
      else
        (case bfs_loop c maxIterations (bfs_init a b) of
           None \<Rightarrow> None
         | Some (r, st) \<Rightarrow> Some r))"

section \<open>The Verification Harness\<close>

text \<open>
  \<^verbatim>\<open>test(a, b, c, skipTreeSearch = false)\<close> of \<^verbatim>\<open>test.ts\<close>, with the two module-level
  counters \<^verbatim>\<open>passed\<close> and \<^verbatim>\<open>failed\<close> as the state it updates. Printing and timing
  are left out. An engine that throws lands in the \<^verbatim>\<open>catch\<close> branch; a search
  that never returns leaves the harness without a result (\<open>None\<close>).
\<close>

record tally =
  passed :: nat
  failed :: nat

definition test :: "int \<Rightarrow> int \<Rightarrow> int \<Rightarrow> bool \<Rightarrow> tally \<Rightarrow> tally option" where
  "test a b c skipTreeSearch t =
     (case canReach a b c of
        Inl e \<Rightarrow> Some (t\<lparr>failed := failed t + 1\<rparr>)
      | Inr mathResult \<Rightarrow>
          let t1 = t\<lparr>passed := passed t + 1\<rparr> in
          if \<not> skipTreeSearch then
            (case canReachBruteForce a b c default_maxIterations of
               None \<Rightarrow> None
             | Some (Inl e) \<Rightarrow> Some (t1\<lparr>failed := failed t1 + 1\<rparr>)
             | Some (Inr treeResult) \<Rightarrow>
                 if treeResult = mathResult then Some (t1\<lparr>passed := passed t1 + 1\<rparr>)
                 else Some (t1\<lparr>failed := failed t1 + 1\<rparr>))
          else Some t1)"

text \<open>The calls of \<^verbatim>\<open>test\<close> in the file, in their order; none passes the skip flag.\<close>

definition test_corpus :: "(int \<times> int \<times> int) list" where
  "test_corpus =
     [(3, 5, 2), (10, 15, 5), (2, 5, 3), (2, 5, 4),
      (2, 3, 4), (2, 3, 6), (3, 5, 4), (3, 5, 6),
      (3, 5, 7), (10, 15, 25), (10, 15, 35), (10, 15, 55),
      (100, 150, 250), (100, 150, 350), (5, 7, 123), (5, 7, 1000),
      (5, 7, 5000), (11, 13, 2500), (17, 23, 3000), (3, 7, 10),
      (3, 7, 17), (3, 7, 73), (3, 7, 13), (3, 7, 12344)]"

definition run_tests :: "tally option" where
  "run_tests =
     fold (\<lambda>(a, b, c) acc. Option.bind acc (test a b c False)) test_corpus
       (Some \<lparr>passed = 0, failed = 0\<rparr>)"

section \<open>Notions used to state the properties\<close>

subsection \<open>Coprime witnesses and search windows\<close>

text \<open>
  \<open>coprime_witness a b c n\<close>: the candidate \<open>n\<close> carries a coprime witness, a
  coefficient \<open>m \<ge> 1\<close> with \<open>c = m * a + n * b\<close> and \<open>gcd m n = 1\<close>.
\<close>

definition coprime_witness :: "int \<Rightarrow> int \<Rightarrow> int \<Rightarrow> int \<Rightarrow> bool" where
  "coprime_witness a b c n \<longleftrightarrow> (\<exists>m. 1 \<le> m \<and> c = m * a + n * b \<and> gcd m n = 1)"

text \<open>
  The candidates \<open>n\<close> that the two loops of \<^verbatim>\<open>canReach\<close> run through, with
  \<open>maxN = (c - a) / b\<close>: \<open>1 .. min maxN 10000\<close>, and when \<open>c \<ge> a * b\<close> also
  \<open>startN .. maxN\<close>, where \<open>startN\<close> is \<open>maxN - 10000\<close> if \<open>maxN > 10000\<close> and 1
  otherwise.
\<close>

definition searched_windows :: "int \<Rightarrow> int \<Rightarrow> int \<Rightarrow> int \<Rightarrow> bool" where
  "searched_windows a b c n \<longleftrightarrow>
     (let maxN = (c - a) div b in
      (1 \<le> n \<and> n \<le> min maxN 10000) \<or>
      (a * b \<le> c \<and> max 1 (maxN - 10000) \<le> n \<and> n \<le> maxN))"

text \<open>
  The candidates in the words of the specification: \<open>n\<close> is among the first 10,000
  values of the range \<open>1 .. maxN\<close> or, when \<open>c \<ge> a * b\<close>, among its last 10,000 values.
\<close>

definition claimed_windows :: "int \<Rightarrow> int \<Rightarrow> int \<Rightarrow> int \<Rightarrow> bool" where
  "claimed_windows a b c n \<longleftrightarrow>
     (let maxN = (c - a) div b in
      1 \<le> n \<and> n \<le> maxN \<and> (n \<le> 10000 \<or> (a * b \<le> c \<and> maxN - 10000 < n)))"

subsection \<open>Keys, histories, reachability\<close>

text \<open>
  The key under which the search files a pair, as one function of the pair (the code
  writes the expression out at both places where it builds a key), and the unordered
  pair \<open>(min, max)\<close> that the key renders.
\<close>

definition canon_key :: "int \<times> int \<Rightarrow> string" where
  "canon_key p = (case p of (x, y) \<Rightarrow> if x < y then pair_key x y else pair_key y x)"

definition unordered :: "int \<times> int \<Rightarrow> int \<times> int" where
  "unordered p = (case p of (x, y) \<Rightarrow> (min x y, max x y))"

text \<open>
  The two state changes of the search: marking a child as visited and pushing it, and
  one \<^verbatim>\<open>iterations++\<close> followed by one \<^verbatim>\<open>queue.shift()\<close>.
\<close>

definition push_child :: "int \<times> int \<Rightarrow> bfs_state \<Rightarrow> bfs_state" where
  "push_child ch st =
     st\<lparr>visited := insert (canon_key ch) (visited st),
        queue := queue st @ [ch],
        push_log := push_log st @ [(ch, insert (canon_key ch) (visited st))]\<rparr>"

definition shifted :: "bfs_state \<Rightarrow> bfs_state" where
  "shifted st =
     st\<lparr>iterations := increment (iterations st),
        queue := tl (queue st),
        shift_log := shift_log st @ [hd (queue st)]\<rparr>"

text \<open>
  What the logs say about a whole search from the start pair \<open>root\<close>: every pair that was
  ever in the queue, and every value the visited set has had since its seeding with the
  start key.
\<close>

definition enqueued :: "int \<times> int \<Rightarrow> bfs_state \<Rightarrow> (int \<times> int) list" where
  "enqueued root st = root # map fst (push_log st)"

definition visited_history :: "int \<times> int \<Rightarrow> bfs_state \<Rightarrow> string set list" where
  "visited_history root st = {canon_key root} # map snd (push_log st)"

text \<open>
  Reachability as the glossary of the specification has it: the pairs generated from
  \<open>(a, b)\<close> by finitely many steps \<^verbatim>\<open>a += b\<close> and \<^verbatim>\<open>b += a\<close>, and the targets
  that occur in one of them.
\<close>

inductive generated :: "int \<Rightarrow> int \<Rightarrow> int \<times> int \<Rightarrow> bool" for a b :: int where
  start: "generated a b (a, b)"
| add_to_first: "generated a b (x, y) \<Longrightarrow> generated a b (x + y, y)"
| add_to_second: "generated a b (x, y) \<Longrightarrow> generated a b (x, x + y)"

definition reachable :: "int \<Rightarrow> int \<Rightarrow> int \<Rightarrow> bool" where
  "reachable a b c \<longleftrightarrow>
     c = a \<or> c = b \<or> (\<exists>x y. generated a b (x, y) \<and> (x = c \<or> y = c))"

text \<open>
  \<open>occurs_at c d p\<close>: the target \<open>c\<close> is a coordinate of some pair exactly \<open>d\<close> steps
  below \<open>p\<close> in the generation tree. \<open>walk ms p\<close> follows one branch: \<open>L\<close> is the step
  to the first child \<open>(x + y, y)\<close>, \<open>R\<close> to the second child \<open>(x, x + y)\<close>.
\<close>

fun occurs_at :: "int \<Rightarrow> nat \<Rightarrow> int \<times> int \<Rightarrow> bool" where
  "occurs_at c 0 (x, y) = (x = c \<or> y = c)"
| "occurs_at c (Suc d) (x, y) = (occurs_at c d (x + y, y) \<or> occurs_at c d (x, x + y))"

datatype move = L | R

fun walk :: "move list \<Rightarrow> int \<times> int \<Rightarrow> int \<times> int" where
  "walk [] p = p"
| "walk (L # ms) (x, y) = walk ms (x + y, y)"
| "walk (R # ms) (x, y) = walk ms (x, x + y)"

subsection \<open>Invariants of the search\<close>

text \<open>
  The invariant of the logs: the visited set holds exactly the keys of the pairs that were
  ever in the queue; these pairs are pairwise different as unordered pairs; every push found
  its key in the visited set; and the visited set has grown strictly with every push.
\<close>

definition history_ok :: "int \<times> int \<Rightarrow> bfs_state \<Rightarrow> bool" where
  "history_ok root st \<longleftrightarrow>
     visited st = canon_key ` set (enqueued root st) \<and>
     distinct (map unordered (enqueued root st)) \<and>
     list_all (\<lambda>(p, V). canon_key p \<in> V) (push_log st) \<and>
     sorted_wrt (\<subset>) (visited_history root st) \<and>
     last (visited_history root st) = visited st"

text \<open>Reading a decimal rendering back, to show that rendering loses nothing.\<close>

definition digit_val :: "char \<Rightarrow> nat" where
  "digit_val ch = of_char ch - 48"

definition undec :: "string \<Rightarrow> nat" where
  "undec s = foldl (\<lambda>acc ch. 10 * acc + digit_val ch) 0 s"

text \<open>
  The invariant with which the search is shown to find a target that occurs \<open>D\<close> steps
  below the start pair. The queue is \<open>A @ B\<close>, the rest of the level \<open>j\<close> being expanded
  followed by what has been pushed of level \<open>j + 1\<close>; \<open>todo\<close> are the children of the pair
  just dequeued that the \<^verbatim>\<open>for\<close> loop has still to visit. The two inequalities count
  the iterations spent against the \<open>2 ^ (j + 1) - 1\<close> pairs of the levels up to \<open>j\<close>. The
  number \<open>m\<close> is the least distance to the target from any pair that was ever in the
  queue, and some pair at that distance is still in the queue, or still to be visited.
\<close>

definition level_split ::
  "int \<Rightarrow> nat \<Rightarrow> int \<times> int \<Rightarrow> (int \<times> int) list \<Rightarrow> bfs_state \<Rightarrow>
   nat \<Rightarrow> nat \<Rightarrow> (int \<times> int) list \<Rightarrow> (int \<times> int) list \<Rightarrow> bool" where
  "level_split c D root todo st j m A B \<longleftrightarrow>
     queue st = A @ B \<and>
     iterations st + int (length A) \<le> 2 ^ (j + 1) - 1 \<and>
     int (length B) + 2 * int (length A) + int (length todo) \<le> 2 ^ (j + 1) \<and>
     1 \<le> m \<and> j + m \<le> D \<and>
     ((\<exists>p \<in> set A. occurs_at c m p) \<or>
      (\<exists>p \<in> set B. occurs_at c m p \<and> j + 1 + m \<le> D) \<or>
      (\<exists>q \<in> set todo. occurs_at c (m - 1) q)) \<and>
     (\<forall>q \<in> set (enqueued root st). \<forall>d < m. \<not> occurs_at c d q) \<and>
     (\<forall>q \<in> set todo. \<forall>d. d + 1 < m \<longrightarrow> \<not> occurs_at c d q) \<and>
     visited st = canon_key ` set (enqueued root st) \<and>
     set (queue st) \<subseteq> set (enqueued root st)"

definition pending_inv ::
  "int \<Rightarrow> nat \<Rightarrow> int \<times> int \<Rightarrow> (int \<times> int) list \<Rightarrow> bfs_state \<Rightarrow> bool" where
  "pending_inv c D root todo st \<longleftrightarrow> (\<exists>j m A B. level_split c D root todo st j m A B)"

text \<open>
  The measure with which every search is shown to end: twice the number of free places
  of the visited set, plus the length of the queue.
\<close>

definition work_left :: "bfs_state \<Rightarrow> nat" where
  "work_left st = 2 * (set_max_size - card (visited st)) + length (queue st)"


text \<open>
  The states of the search from \<open>(2, 5)\<close> for the target 3: one pair \<open>(2, k)\<close> in the
  queue, no key of a pair \<open>(2, j)\<close> with \<open>j > k\<close> seen yet, and one key more in the
  visited set than passes made.
\<close>

definition chain_state :: "bfs_state \<Rightarrow> bool" where
  "chain_state st \<longleftrightarrow>
     (\<exists>k. queue st = [(2, k)] \<and> 5 \<le> k \<and>
          (\<forall>s \<in> visited st. \<exists>j. j \<le> k \<and> s = pair_key 2 j) \<and>
          finite (visited st) \<and>
          int (card (visited st)) = iterations st + 1 \<and>
          card (visited st) \<le> set_max_size)"

section \<open>Properties of the Decision Engine\<close>

lemma bigint_rem_nonneg: "0 \<le> x \<Longrightarrow> 0 < y \<Longrightarrow> bigint_rem x y = Inr (x mod y)"
  by (cases "x = 0") (simp_all add: bigint_rem_def)

lemma bigint_div_nonneg: "0 \<le> x \<Longrightarrow> 0 < y \<Longrightarrow> bigint_div x y = Inr (x div y)"
  by (cases "x = 0") (simp_all add: bigint_div_def)

lemma gcd_loop_eq: "0 \<le> x \<Longrightarrow> 0 \<le> y \<Longrightarrow> gcd_loop x y = Inr (gcd x y)"
proof (induction x y rule: gcd_loop.induct)
  case (1 x y)
  show ?case
  proof (cases "y = 0")
    case True
    with 1 show ?thesis by (simp add: gcd_loop.simps)
  next
    case False
    with 1 have ypos: "0 < y" by simp
    have r: "bigint_rem x y = Inr (x mod y)"
      using 1 ypos by (simp add: bigint_rem_nonneg)
    have "gcd_loop y (x mod y) = Inr (gcd y (x mod y))"
      using 1 False r ypos by simp
    then show ?thesis
      using False r by (subst gcd_loop.simps) (simp add: gcd.commute gcd_red_int[symmetric])
  qed
qed

lemma gcd_ts_eq: "gcd_ts x y = Inr (gcd x y)"
  by (simp add: gcd_ts_def gcd_loop_eq Let_def)

lemma try_n_eq:
  assumes "0 < a"
  shows "try_n a b c n = Inr (coprime_witness a b c n)"
proof (cases "0 < c - n * b")
  case False
  have "\<not> coprime_witness a b c n"
  proof
    assume "coprime_witness a b c n"
    then have "\<exists>m. 1 \<le> m \<and> c = m * a + n * b \<and> gcd m n = 1"
      unfolding coprime_witness_def .
    then obtain m where "1 \<le> m \<and> c = m * a + n * b \<and> gcd m n = 1" ..
    then have m: "1 \<le> m" "c = m * a + n * b" by simp_all
    have "0 < m * a" using m(1) assms by simp
    with m(2) False show False by simp
  qed
  with False show ?thesis by (simp add: try_n_def Let_def)
next
  case True
  define r where "r = c - n * b"
  have rpos: "0 < r" using True by (simp add: r_def)
  have rem: "bigint_rem r a = Inr (r mod a)" and quo: "bigint_div r a = Inr (r div a)"
    using rpos assms by (simp_all add: bigint_rem_nonneg bigint_div_nonneg)
  have unfold: "try_n a b c n =
      (if r mod a = 0 then if 1 \<le> r div a then Inr (gcd (r div a) n = 1) else Inr False
       else Inr False)"
    unfolding try_n_def Let_def r_def [symmetric]
    by (simp only: rpos if_True rem quo sum.case gcd_ts_eq)
  have wit: "coprime_witness a b c n \<longleftrightarrow> (\<exists>m. 1 \<le> m \<and> r = m * a \<and> gcd m n = 1)"
    unfolding coprime_witness_def r_def by (simp add: algebra_simps)
  show ?thesis
  proof (cases "r mod a = 0")
    case False
    have "r \<noteq> m * a" for m
      using False by auto
    with wit have "\<not> coprime_witness a b c n" by simp
    with False unfold show ?thesis by simp
  next
    case zero: True
    then have eq: "r = (r div a) * a" by auto
    have mpos: "1 \<le> r div a"
    proof (rule ccontr)
      assume "\<not> 1 \<le> r div a"
      then have "r div a \<le> 0" by simp
      then have "(r div a) * a \<le> 0" using assms by (simp add: mult_le_0_iff)
      with eq rpos show False by simp
    qed
    have "coprime_witness a b c n \<longleftrightarrow> gcd (r div a) n = 1"
    proof
      assume "coprime_witness a b c n"
      with wit have "\<exists>m. 1 \<le> m \<and> r = m * a \<and> gcd m n = 1" by simp
      then obtain m where "1 \<le> m \<and> r = m * a \<and> gcd m n = 1" ..
      then have m: "r = m * a" "gcd m n = 1" by simp_all
      from m(1) have "r div a = m" using assms by simp
      with m(2) show "gcd (r div a) n = 1" by (simp only:)
    next
      assume "gcd (r div a) n = 1"
      with eq mpos have "1 \<le> r div a \<and> r = (r div a) * a \<and> gcd (r div a) n = 1"
        by (simp only: simp_thms)
      then have "\<exists>m. 1 \<le> m \<and> r = m * a \<and> gcd m n = 1" ..
      then show "coprime_witness a b c n"
        unfolding wit .
    qed
    with zero mpos unfold show ?thesis by simp
  qed
qed

lemma search_window_eq:
  assumes "0 < a"
  shows "search_window a b c lo hi = Inr (\<exists>n. lo \<le> n \<and> n \<le> hi \<and> coprime_witness a b c n)"
  using assms
proof (induction a b c lo hi rule: search_window.induct)
  case (1 a b c n hi)
  show ?case
  proof (cases "n \<le> hi")
    case False
    then show ?thesis by (subst search_window.simps) auto
  next
    case True
    show ?thesis
    proof (cases "coprime_witness a b c n")
      case w: True
      with True 1 show ?thesis
        by (subst search_window.simps) (auto simp: try_n_eq)
    next
      case w: False
      have ih: "search_window a b c (n + 1) hi =
          Inr (\<exists>k. n + 1 \<le> k \<and> k \<le> hi \<and> coprime_witness a b c k)"
        using 1 True w by (simp add: try_n_eq)
      have "(\<exists>k. n + 1 \<le> k \<and> k \<le> hi \<and> coprime_witness a b c k) \<longleftrightarrow>
            (\<exists>k. n \<le> k \<and> k \<le> hi \<and> coprime_witness a b c k)"
      proof
        assume "\<exists>k. n + 1 \<le> k \<and> k \<le> hi \<and> coprime_witness a b c k"
        then obtain k where k: "n + 1 \<le> k" "k \<le> hi" "coprime_witness a b c k" by auto
        then have "n \<le> k" by simp
        with k show "\<exists>k. n \<le> k \<and> k \<le> hi \<and> coprime_witness a b c k" by blast
      next
        assume "\<exists>k. n \<le> k \<and> k \<le> hi \<and> coprime_witness a b c k"
        then obtain k where k: "n \<le> k" "k \<le> hi" "coprime_witness a b c k" by auto
        with w have "k \<noteq> n" by blast
        with k have "n + 1 \<le> k" by simp
        with k show "\<exists>k. n + 1 \<le> k \<and> k \<le> hi \<and> coprime_witness a b c k" by blast
      qed
      with ih True w 1 show ?thesis
        by (subst search_window.simps) (simp add: try_n_eq)
    qed
  qed
qed

lemma canReach_search:
  assumes "0 < a" "0 < b" "c \<noteq> a" "c \<noteq> b" "a + b \<le> c" "gcd a b dvd c"
  shows "canReach a b c =
    Inr ((\<exists>n. 1 \<le> n \<and> n \<le> min ((c - a) div b) 10000 \<and> coprime_witness a b c n) \<or>
         (a * b \<le> c \<and>
          (\<exists>n. max 1 ((c - a) div b - 10000) \<le> n \<and> n \<le> (c - a) div b
               \<and> coprime_witness a b c n)))"
proof -
  have g: "0 < gcd a b" using assms by simp
  have cpos: "0 < c" using assms by simp
  have cg: "bigint_rem c (gcd a b) = Inr 0"
    using g cpos assms(6) by (simp add: bigint_rem_nonneg)
  have mx: "bigint_div (c - a) b = Inr ((c - a) div b)"
    using assms by (simp add: bigint_div_nonneg)
  have lim: "(if (c - a) div b < 10000 then (c - a) div b else 10000) = min ((c - a) div b) 10000"
    by simp
  have st: "(if (c - a) div b > 10000 then (c - a) div b - 10000 else 1) = max 1 ((c - a) div b - 10000)"
    by simp
  show ?thesis
    unfolding canReach_def Let_def gcd_ts_eq sum.case cg mx lim st
    using assms cpos
    by (simp add: search_window_eq)
qed


lemma canReach_searched_windows:
  assumes "0 < a" "0 < b" "c \<noteq> a" "c \<noteq> b" "a + b \<le> c" "gcd a b dvd c"
  shows "canReach a b c = Inr (\<exists>n. searched_windows a b c n \<and> coprime_witness a b c n)"
proof -
  have "(\<exists>n. searched_windows a b c n \<and> coprime_witness a b c n) \<longleftrightarrow>
    ((\<exists>n. 1 \<le> n \<and> n \<le> min ((c - a) div b) 10000 \<and> coprime_witness a b c n) \<or>
         (a * b \<le> c \<and>
          (\<exists>n. max 1 ((c - a) div b - 10000) \<le> n \<and> n \<le> (c - a) div b
               \<and> coprime_witness a b c n)))"
    unfolding searched_windows_def Let_def by auto
  then show ?thesis
    using canReach_search [OF assms] by simp
qed

lemma canReach_nonpos:
  assumes "a \<le> 0 \<or> b \<le> 0 \<or> c \<le> 0"
  shows "canReach a b c = Inl InvalidInput"
  using assms by (simp add: canReach_def)

lemma canReach_generator:
  assumes "0 < a" "0 < b" "c = a \<or> c = b"
  shows "canReach a b c = Inr True"
  using assms by (auto simp: canReach_def)

lemma canReach_not_dvd:
  assumes "0 < a" "0 < b" "0 < c" "\<not> gcd a b dvd c"
  shows "canReach a b c = Inr False"
proof -
  have ne: "c \<noteq> a" "c \<noteq> b"
    using assms(4) by auto
  have g: "0 < gcd a b" using assms by simp
  have cg: "bigint_rem c (gcd a b) = Inr (c mod gcd a b)"
    using g assms(3) by (simp add: bigint_rem_nonneg)
  have nz: "c mod gcd a b \<noteq> 0"
    using assms(4) by (simp add: mod_eq_0_iff_dvd)
  show ?thesis
    unfolding canReach_def gcd_ts_eq sum.case cg
    using assms(1-3) ne nz by simp
qed

lemma canReach_small:
  assumes "0 < a" "0 < b" "0 < c" "c \<noteq> a" "c \<noteq> b" "c < a + b"
  shows "canReach a b c = Inr False"
proof -
  obtain cg where cg: "bigint_rem c (gcd a b) = Inr cg"
    using assms by (simp add: bigint_rem_def)
  show ?thesis
    unfolding canReach_def Let_def gcd_ts_eq sum.case cg
    using assms by simp
qed

lemma canReach_pos:
  assumes "0 < a" "0 < b" "0 < c"
  shows "canReach a b c =
    Inr (c = a \<or> c = b \<or>
         (a + b \<le> c \<and> gcd a b dvd c \<and>
          (\<exists>n. searched_windows a b c n \<and> coprime_witness a b c n)))"
proof -
  consider (gen) "c = a \<or> c = b"
    | (small) "c \<noteq> a" "c \<noteq> b" "c < a + b"
    | (ndvd) "c \<noteq> a" "c \<noteq> b" "a + b \<le> c" "\<not> gcd a b dvd c"
    | (search) "c \<noteq> a" "c \<noteq> b" "a + b \<le> c" "gcd a b dvd c"
    by linarith
  then show ?thesis
  proof cases
    case gen
    then show ?thesis
      using canReach_generator [OF assms(1,2) gen] by auto
  next
    case small
    then show ?thesis
      using canReach_small [OF assms small] by simp
  next
    case ndvd
    then show ?thesis
      using canReach_not_dvd [OF assms ndvd(4)] by simp
  next
    case search
    then show ?thesis
      using canReach_searched_windows [OF assms(1,2) search] by simp
  qed
qed

text \<open>
  Claim C3 (divisibility necessity): for all positive \<open>a\<close>, \<open>b\<close>, \<open>c\<close> with
  \<open>c mod gcd a b \<noteq> 0\<close>, \<^verbatim>\<open>canReach(a,b,c)\<close> returns false.
\<close>

theorem canReach_divisibility_necessity:
  assumes "0 < a" "0 < b" "0 < c" "c mod gcd a b \<noteq> 0"
  shows "canReach a b c = Inr False"
  using assms by (simp add: canReach_not_dvd mod_eq_0_iff_dvd)

theorem canReach_divisibility_necessity_witness:
  "(0::int) < 10 \<and> (0::int) < 15 \<and> (0::int) < 7 \<and> (7::int) mod gcd 10 15 \<noteq> 0
   \<and> canReach 10 15 7 = Inr False"
proof -
  have h: "(7::int) mod gcd 10 15 \<noteq> 0" by code_simp
  show ?thesis
    using h canReach_divisibility_necessity [of 10 15 7] by simp
qed

text \<open>
  Claim C6 (invalid input, raises-iff): \<^verbatim>\<open>canReach(a,b,c)\<close> raises the invalid-input
  error exactly when one of \<open>a\<close>, \<open>b\<close>, \<open>c\<close> is \<open>\<le> 0\<close>; it raises no other error
  either, and when all three are positive it returns a boolean.
\<close>

theorem canReach_invalid_input_iff:
  "(canReach a b c = Inl InvalidInput \<longleftrightarrow> a \<le> 0 \<or> b \<le> 0 \<or> c \<le> 0) \<and>
   ((\<exists>e. canReach a b c = Inl e) \<longleftrightarrow> a \<le> 0 \<or> b \<le> 0 \<or> c \<le> 0) \<and>
   (0 < a \<and> 0 < b \<and> 0 < c \<longrightarrow> (\<exists>r. canReach a b c = Inr r))"
proof (cases "a \<le> 0 \<or> b \<le> 0 \<or> c \<le> 0")
  case True
  then have "canReach a b c = Inl InvalidInput"
    by (rule canReach_nonpos)
  with True show ?thesis by auto
next
  case False
  then have "\<exists>r. canReach a b c = Inr r"
    using canReach_pos [of a b c] by simp
  with False show ?thesis by auto
qed

theorem canReach_invalid_input_iff_witness:
  "(canReach 0 5 8 = Inl InvalidInput) \<and> (canReach 3 (- 5) 8 = Inl InvalidInput) \<and>
   (\<exists>r. canReach 3 5 8 = Inr r)"
  using canReach_invalid_input_iff [of 0 5 8] canReach_invalid_input_iff [of 3 "- 5" 8]
    canReach_invalid_input_iff [of 3 5 8]
  by simp

text \<open>
  Claim C4 (nothing below \<open>a + b\<close> but the generators): for all positive \<open>a\<close>,
  \<open>b\<close>, \<open>c\<close> with \<open>c \<noteq> a\<close>, \<open>c \<noteq> b\<close> and \<open>c < a + b\<close>, \<^verbatim>\<open>canReach(a,b,c)\<close>
  returns false; in particular whenever \<open>c < min a b\<close> and whenever
  \<open>min a b < c < max a b\<close>.
\<close>

theorem canReach_below_sum:
  assumes "0 < a" "0 < b" "0 < c"
    and "(c \<noteq> a \<and> c \<noteq> b \<and> c < a + b) \<or> c < min a b \<or> (min a b < c \<and> c < max a b)"
  shows "canReach a b c = Inr False"
proof -
  have "c \<noteq> a" "c \<noteq> b" "c < a + b"
    using assms by auto
  with assms(1-3) show ?thesis by (rule canReach_small)
qed

theorem canReach_below_sum_witness:
  "canReach 3 5 4 = Inr False \<and> canReach 3 5 7 = Inr False \<and> canReach 3 5 2 = Inr False"
  using canReach_below_sum [of 3 5 4] canReach_below_sum [of 3 5 7] canReach_below_sum [of 3 5 2]
  by simp

lemmas canReach_eval = canReach_def gcd_ts_def gcd_loop.simps bigint_rem_def bigint_div_def
  search_window.simps try_n_def

text \<open>
  Claim C5 (concrete scenarios, arbitrary precision): \<^verbatim>\<open>canReach(4,6,20)\<close> returns
  false, the only solution of \<open>20 = m * 4 + n * 6\<close> with \<open>m, n \<ge> 1\<close> being
  \<open>m = n = 2\<close>, which is not coprime; and
  \<^verbatim>\<open>canReach(1,2,12345678901234567890123456789)\<close> returns true, for a target beyond
  the 64-bit range.
\<close>

theorem canReach_concrete_scenarios:
  "canReach 4 6 20 = Inr False \<and>
   {(m, n). 1 \<le> m \<and> 1 \<le> n \<and> (20::int) = m * 4 + n * 6} = {(2, 2)} \<and>
   gcd (2::int) 2 \<noteq> 1 \<and>
   canReach 1 2 12345678901234567890123456789 = Inr True \<and>
   (2::int) ^ 64 < 12345678901234567890123456789"
proof -
  have a: "canReach 4 6 20 = Inr False"
    by (simp add: canReach_eval)
  have "m = 2 \<and> n = 2" if "1 \<le> m" "1 \<le> n" "(20::int) = m * 4 + n * 6" for m n :: int
    using that by presburger
  then have b: "{(m, n). 1 \<le> m \<and> 1 \<le> n \<and> (20::int) = m * 4 + n * 6} = {(2, 2)}"
    by auto
  have c: "gcd (2::int) 2 \<noteq> 1" by simp
  have d: "canReach 1 2 12345678901234567890123456789 = Inr True"
    by (simp add: canReach_eval)
  have e: "(2::int) ^ 64 < 12345678901234567890123456789" by simp
  from a b c d e show ?thesis by (simp only: simp_thms)
qed

text \<open>
  Claim C2 (bounded dual-window witness search) says that \<^verbatim>\<open>canReach\<close> finds a
  coprime witness exactly when one exists among the first 10,000 values of
  \<open>1..maxN\<close> or, when \<open>c \<ge> a * b\<close>, among the last 10,000 values. What the code
  searches is stated by \<open>canReach_searched_windows\<close> above: its second loop starts at
  \<open>maxN - 10000\<close> and ends at \<open>maxN\<close>, both included, which are 10,001 values. At
  \<open>(30001, 3, 120005)\<close> the only witness is \<open>m = 2\<close>, \<open>n = 20001 = maxN - 10000\<close>:
  the code returns true although no witness lies in the windows of the claim.
\<close>

theorem canReach_last_window_has_10001_values:
  "canReach 30001 3 120005 = Inr True \<and>
   \<not> (\<exists>n. claimed_windows 30001 3 120005 n \<and> coprime_witness 30001 3 120005 n)"
proof -
  have g: "gcd (30001::int) 3 = 1" by code_simp
  have g2: "gcd (2::int) 20001 = 1" by code_simp
  have w: "coprime_witness 30001 3 120005 20001"
    unfolding coprime_witness_def
    by (rule exI [of _ 2]) (simp add: g2)
  have s: "searched_windows 30001 3 120005 20001"
    by (simp add: searched_windows_def)
  have "canReach 30001 3 120005 = Inr (\<exists>n. searched_windows 30001 3 120005 n \<and> coprime_witness 30001 3 120005 n)"
    by (rule canReach_searched_windows) (simp_all add: g)
  with w s have yes: "canReach 30001 3 120005 = Inr True" by auto
  have no: "\<not> (claimed_windows 30001 3 120005 n \<and> coprime_witness 30001 3 120005 n)" for n
  proof
    assume h: "claimed_windows 30001 3 120005 n \<and> coprime_witness 30001 3 120005 n"
    then have n: "1 \<le> n" "n \<le> 30001" "n \<le> 10000 \<or> 20001 < n"
      by (simp_all add: claimed_windows_def)
    from h have "\<exists>m. 1 \<le> m \<and> 120005 = m * 30001 + n * 3 \<and> gcd m n = 1"
      unfolding coprime_witness_def by simp
    then obtain m where "1 \<le> m \<and> 120005 = m * 30001 + n * 3 \<and> gcd m n = 1" ..
    then have m: "1 \<le> m" "120005 = m * 30001 + n * 3" by simp_all
    from m n(1) have "m \<le> 3" by simp
    with m(1) have "m = 1 \<or> m = 2 \<or> m = 3" by auto
    then show False
    proof (elim disjE)
      assume "m = 1"
      with m(2) have "90004 = n * 3" by simp
      then have "(3::int) dvd 90004" by (simp only: dvd_triv_right)
      then show False by simp
    next
      assume "m = 2"
      with m(2) have "n = 20001" by simp
      with n(3) show False by simp
    next
      assume "m = 3"
      with m(2) have "30002 = n * 3" by simp
      then have "(3::int) dvd 30002" by (simp only: dvd_triv_right)
      then show False by simp
    qed
  qed
  from yes no show ?thesis by simp
qed

section \<open>Properties of the Reference Search Engine\<close>

subsection \<open>One child, both children, one pass\<close>

lemma visit_child_eq:
  "visit_child c (nx, ny) st =
     (if nx = c \<or> ny = c then (Some (Inr True), st)
      else if (c < nx \<and> c < ny) \<or> canon_key (nx, ny) \<in> visited st then (None, st)
      else if set_max_size \<le> card (visited st) then (Some (Inl RangeError), st)
      else (None, push_child (nx, ny) st))"
  by (simp add: visit_child_def canon_key_def push_child_def Let_def)

lemma visit_child_cases:
  obtains (found) "fst ch = c \<or> snd ch = c" "visit_child c ch st = (Some (Inr True), st)"
  | (skipped) "fst ch \<noteq> c" "snd ch \<noteq> c"
      "(c < fst ch \<and> c < snd ch) \<or> canon_key ch \<in> visited st"
      "visit_child c ch st = (None, st)"
  | (full) "fst ch \<noteq> c" "snd ch \<noteq> c" "\<not> (c < fst ch \<and> c < snd ch)"
      "canon_key ch \<notin> visited st" "set_max_size \<le> card (visited st)"
      "visit_child c ch st = (Some (Inl RangeError), st)"
  | (pushed) "fst ch \<noteq> c" "snd ch \<noteq> c" "\<not> (c < fst ch \<and> c < snd ch)"
      "canon_key ch \<notin> visited st" "card (visited st) < set_max_size"
      "visit_child c ch st = (None, push_child ch st)"
proof (cases ch)
  case (Pair nx ny)
  consider "nx = c \<or> ny = c"
    | "nx \<noteq> c" "ny \<noteq> c" "(c < nx \<and> c < ny) \<or> canon_key ch \<in> visited st"
    | "nx \<noteq> c" "ny \<noteq> c" "\<not> (c < nx \<and> c < ny)" "canon_key ch \<notin> visited st"
      "set_max_size \<le> card (visited st)"
    | "nx \<noteq> c" "ny \<noteq> c" "\<not> (c < nx \<and> c < ny)" "canon_key ch \<notin> visited st"
      "card (visited st) < set_max_size"
    by fastforce
  then show thesis
  proof cases
    case 1
    then show thesis using Pair by (intro found) (simp_all add: visit_child_eq)
  next
    case 2
    then show thesis using Pair by (intro skipped) (simp_all add: visit_child_eq)
  next
    case 3
    then show thesis using Pair by (intro full) (auto simp: visit_child_eq)
  next
    case 4
    then show thesis using Pair by (intro pushed) (auto simp: visit_child_eq)
  qed
qed

lemma bfs_loop_unfold:
  "bfs_loop c m st =
     (case queue st of
        [] \<Rightarrow> Some (Inr False, st)
      | (x, y) # rest \<Rightarrow>
          if exceeds (increment (iterations st)) m
          then Some (Inr False, st\<lparr>iterations := increment (iterations st)\<rparr>)
          else (case for_children c [(x + y, y), (x, x + y)] (shifted st) of
                  (Some r, st3) \<Rightarrow> Some (r, st3)
                | (None, st3) \<Rightarrow> bfs_loop c m st3))"
  by (subst bfs_loop.simps) (simp add: Let_def shifted_def split: list.splits prod.splits)

lemma visit_child_iterations: "iterations (snd (visit_child c ch st)) = iterations st"
  by (cases rule: visit_child_cases [of ch c st]) (simp_all add: push_child_def)

lemma for_children_iterations:
  "iterations (snd (for_children c chs st)) = iterations st"
proof (induction chs arbitrary: st)
  case Nil
  show ?case by simp
next
  case (Cons ch chs)
  show ?case
    using Cons [of "snd (visit_child c ch st)"] visit_child_iterations [of c ch st]
    by (cases "visit_child c ch st") (auto split: option.splits)
qed

text \<open>
  Induction over a run that ends: the four ways in which one evaluation of the loop
  condition and body can go. In the third the body ends the call, by
  \<^verbatim>\<open>return true\<close> or by the exception of a full set.
\<close>

lemma bfs_loop_returns_induct [consumes 1, case_names empty capped ended pass]:
  assumes run: "bfs_loop c m st = Some res"
    and empty: "\<And>st. queue st = [] \<Longrightarrow> P st (Inr False, st)"
    and capped: "\<And>st x y rest. queue st = (x, y) # rest \<Longrightarrow>
        exceeds (increment (iterations st)) m \<Longrightarrow>
        P st (Inr False, st\<lparr>iterations := increment (iterations st)\<rparr>)"
    and ended: "\<And>st x y rest r st3. queue st = (x, y) # rest \<Longrightarrow>
        \<not> exceeds (increment (iterations st)) m \<Longrightarrow>
        for_children c [(x + y, y), (x, x + y)] (shifted st) = (Some r, st3) \<Longrightarrow>
        P st (r, st3)"
    and pass: "\<And>st x y rest st3 res. queue st = (x, y) # rest \<Longrightarrow>
        \<not> exceeds (increment (iterations st)) m \<Longrightarrow>
        for_children c [(x + y, y), (x, x + y)] (shifted st) = (None, st3) \<Longrightarrow>
        P st3 res \<Longrightarrow> P st res"
  shows "P st res"
proof -
  have "c = c \<longrightarrow> m = m \<longrightarrow> P st res"
  proof (rule bfs_loop.raw_induct
      [where P = "\<lambda>c' m' st res. c' = c \<longrightarrow> m' = m \<longrightarrow> P st res", OF _ run], goal_cases)
    case (1 f c' m' st res)
    show ?case
    proof (intro impI)
      assume eq: "c' = c" "m' = m"
      show "P st res"
      proof (cases "queue st")
        case Nil
        with 1(2) have "res = (Inr False, st)" by simp
        with empty [OF Nil] show ?thesis by simp
      next
        case (Cons p rest)
        obtain x y where p: "p = (x, y)" by (cases p)
        have q: "queue st = (x, y) # rest" using Cons p by simp
        show ?thesis
        proof (cases "exceeds (increment (iterations st)) m")
          case True
          with 1(2) q eq have "res = (Inr False, st\<lparr>iterations := increment (iterations st)\<rparr>)"
            by (simp add: Let_def)
          with capped [OF q True] show ?thesis by simp
        next
          case False
          obtain ro st3 where
            res: "for_children c [(x + y, y), (x, x + y)] (shifted st) = (ro, st3)"
            by (cases "for_children c [(x + y, y), (x, x + y)] (shifted st)")
          have sh: "st\<lparr>iterations := increment (iterations st), queue := rest,
              shift_log := shift_log st @ [(x, y)]\<rparr> = shifted st"
            using q by (simp add: shifted_def)
          show ?thesis
          proof (cases ro)
            case None
            with 1(2) q eq False res sh have "f c m st3 = Some res"
              by (simp add: Let_def)
            then have ih: "P st3 res" using 1(1) [of c m st3 res] by simp
            have fc: "for_children c [(x + y, y), (x, x + y)] (shifted st) = (None, st3)"
              using res None by simp
            from q False fc ih show ?thesis by (rule pass)
          next
            case (Some r)
            with 1(2) q eq False res sh have "res = (r, st3)"
              by (simp add: Let_def)
            moreover have "for_children c [(x + y, y), (x, x + y)] (shifted st) = (Some r, st3)"
              using res Some by simp
            ultimately show ?thesis using ended [OF q False] by simp
          qed
        qed
      qed
    qed
  qed
  then show ?thesis by simp
qed

lemma for_children_preserves:
  assumes push: "\<And>ch s. P s \<Longrightarrow> canon_key ch \<notin> visited s \<Longrightarrow>
      card (visited s) < set_max_size \<Longrightarrow> P (push_child ch s)"
    and "P st"
  shows "P (snd (for_children c chs st))"
  using \<open>P st\<close>
proof (induction chs arbitrary: st)
  case Nil
  then show ?case by simp
next
  case (Cons ch chs)
  show ?case
  proof (cases rule: visit_child_cases [of ch c st])
    case found
    with Cons.prems show ?thesis by simp
  next
    case skipped
    with Cons show ?thesis by simp
  next
    case full
    with Cons.prems show ?thesis by simp
  next
    case pushed
    have "P (push_child ch st)"
      using Cons.prems pushed(4,5) by (rule push)
    then have "P (snd (for_children c chs (push_child ch st)))"
      by (rule Cons.IH)
    with pushed show ?thesis by simp
  qed
qed

text \<open>
  The loop over the children ends the call in two ways only: \<^verbatim>\<open>return true\<close> at a
  child that contains the target, or the exception of \<^verbatim>\<open>visited.add\<close> on a full set.
\<close>

lemma for_children_found:
  assumes "for_children c chs st = (Some r, st')"
  shows "(r = Inr True \<and> (\<exists>ch \<in> set chs. fst ch = c \<or> snd ch = c))
    \<or> (r = Inl RangeError \<and> set_max_size \<le> card (visited st'))"
  using assms
proof (induction chs arbitrary: st)
  case Nil
  then show ?case by simp
next
  case (Cons ch chs)
  show ?case
  proof (cases rule: visit_child_cases [of ch c st])
    case found
    with Cons.prems show ?thesis by auto
  next
    case skipped
    with Cons show ?thesis by auto
  next
    case full
    with Cons.prems show ?thesis by auto
  next
    case pushed
    with Cons show ?thesis by auto
  qed
qed


lemma bfs_loop_preserves:
  assumes push: "\<And>ch s. P s \<Longrightarrow> canon_key ch \<notin> visited s \<Longrightarrow>
      card (visited s) < set_max_size \<Longrightarrow> P (push_child ch s)"
    and shift: "\<And>s. P s \<Longrightarrow> queue s \<noteq> [] \<Longrightarrow> P (shifted s)"
    and stop: "\<And>s. P s \<Longrightarrow> P (s\<lparr>iterations := increment (iterations s)\<rparr>)"
    and "P st" and run: "bfs_loop c m st = Some (r, st')"
  shows "P st'"
proof -
  have "P st \<longrightarrow> P (snd res)" if "bfs_loop c m st = Some res" for res
    using that
  proof (induction rule: bfs_loop_returns_induct)
    case (empty st)
    show ?case by simp
  next
    case (capped st x y rest)
    show ?case by (simp add: stop)
  next
    case (ended st x y rest r st3)
    show ?case
    proof
      assume "P st"
      then have "P (shifted st)" using ended(1) by (simp add: shift)
      with push have "P (snd (for_children c [(x + y, y), (x, x + y)] (shifted st)))"
        by (rule for_children_preserves)
      with ended(3) show "P (snd (r, st3))" by simp
    qed
  next
    case (pass st x y rest st3 res)
    show ?case
    proof
      assume "P st"
      then have "P (shifted st)" using pass(1) by (simp add: shift)
      with push have "P (snd (for_children c [(x + y, y), (x, x + y)] (shifted st)))"
        by (rule for_children_preserves)
      with pass(3) have "P st3" by simp
      with pass(4) show "P (snd res)" by simp
    qed
  qed
  from this [OF run] \<open>P st\<close> show ?thesis by simp
qed

subsection \<open>Every call ends\<close>

text \<open>
  Each pass removes one pair from the queue and adds at most two, and each pair added
  takes one of the finitely many free places of the visited set. So twice the number
  of free places plus the length of the queue decreases with every pass, whatever the
  cap is.
\<close>

lemma push_child_work_left:
  assumes "finite (visited s)" "canon_key ch \<notin> visited s" "card (visited s) < set_max_size"
  shows "work_left (push_child ch s) + 1 = work_left s"
  using assms by (simp add: work_left_def push_child_def)

lemma shifted_work_left:
  assumes "queue s \<noteq> []"
  shows "work_left (shifted s) < work_left s"
  using assms by (cases "queue s") (simp_all add: work_left_def shifted_def)

lemma for_children_work_left:
  assumes "finite (visited st)"
  shows "finite (visited (snd (for_children c chs st)))
    \<and> work_left (snd (for_children c chs st)) \<le> work_left st"
proof (rule for_children_preserves
    [where P = "\<lambda>s. finite (visited s) \<and> work_left s \<le> work_left st"], goal_cases)
  case (1 ch s)
  then have "work_left (push_child ch s) + 1 = work_left s"
    by (intro push_child_work_left) simp_all
  with 1 show ?case by (simp add: push_child_def)
next
  case 2
  show ?case using assms by simp
qed

lemma bfs_loop_ends:
  assumes "finite (visited st)"
  shows "\<exists>res. bfs_loop c m st = Some res"
  using assms
proof (induction "work_left st" arbitrary: st rule: less_induct)
  case less
  show ?case
  proof (cases "queue st")
    case Nil
    then show ?thesis by (subst bfs_loop_unfold) simp
  next
    case (Cons p rest)
    obtain x y where p: "p = (x, y)" by (cases p)
    show ?thesis
    proof (cases "exceeds (increment (iterations st)) m")
      case True
      with Cons p show ?thesis by (subst bfs_loop_unfold) simp
    next
      case False
      obtain ro st3 where
        res: "for_children c [(x + y, y), (x, x + y)] (shifted st) = (ro, st3)"
        by (cases "for_children c [(x + y, y), (x, x + y)] (shifted st)")
      show ?thesis
      proof (cases ro)
        case None
        have "finite (visited (shifted st))"
          using less.prems by (simp add: shifted_def)
        from for_children_work_left [OF this, of c "[(x + y, y), (x, x + y)]"] res
        have fin: "finite (visited st3)" and le: "work_left st3 \<le> work_left (shifted st)"
          by simp_all
        have "work_left (shifted st) < work_left st"
          using Cons by (intro shifted_work_left) simp
        with le have "work_left st3 < work_left st" by simp
        then have "\<exists>res. bfs_loop c m st3 = Some res" using fin by (rule less.hyps)
        with Cons p False res None show ?thesis
          by (subst bfs_loop_unfold) simp
      next
        case (Some r')
        with Cons p False res show ?thesis
          by (subst bfs_loop_unfold) simp
      qed
    qed
  qed
qed

lemma bfs_init_finite: "finite (visited (bfs_init a b))"
  by (simp add: bfs_init_def Let_def)

lemma bfs_init_card: "card (visited (bfs_init a b)) = 1"
  by (simp add: bfs_init_def Let_def)

lemma bfs_init_iterations: "iterations (bfs_init a b) = 0"
  by (simp add: bfs_init_def Let_def)

subsection \<open>A small cap keeps the visited set below its capacity\<close>

lemma finite_cap_increment:
  assumes "k < 2 ^ 53" "\<not> exceeds (increment i) (Num k)"
  shows "increment i = i + 1" "i + 1 \<le> k"
proof -
  have le: "increment i \<le> k" using assms(2) by (simp add: exceeds_def)
  have "i < 2 ^ 53"
  proof (rule ccontr)
    assume "\<not> i < 2 ^ 53"
    then have "increment i = i" "2 ^ 53 \<le> i" by (simp_all add: increment_def)
    with le assms(1) show False by simp
  qed
  then show "increment i = i + 1" by (simp add: increment_def)
  with le show "i + 1 \<le> k" by simp
qed

lemma for_children_card:
  assumes "finite (visited st)"
  shows "finite (visited (snd (for_children c chs st)))
    \<and> card (visited (snd (for_children c chs st))) \<le> card (visited st) + length chs"
  using assms
proof (induction chs arbitrary: st)
  case Nil
  then show ?case by simp
next
  case (Cons ch chs)
  show ?case
  proof (cases rule: visit_child_cases [of ch c st])
    case found
    with Cons.prems show ?thesis by simp
  next
    case skipped
    with Cons.IH [OF Cons.prems] show ?thesis by simp
  next
    case full
    with Cons.prems show ?thesis by simp
  next
    case pushed
    have fin: "finite (visited (push_child ch st))"
      using Cons.prems by (simp add: push_child_def)
    have "card (visited (push_child ch st)) = card (visited st) + 1"
      using Cons.prems pushed(4) by (simp add: push_child_def)
    with Cons.IH [OF fin] pushed(6) show ?thesis by simp
  qed
qed

lemma for_children_no_overflow:
  assumes "for_children c chs st = (Some r, st')" "finite (visited st)"
    and "card (visited st) + length chs \<le> set_max_size"
  shows "r = Inr True"
  using assms
proof (induction chs arbitrary: st)
  case Nil
  then show ?case by simp
next
  case (Cons ch chs)
  show ?case
  proof (cases rule: visit_child_cases [of ch c st])
    case found
    with Cons.prems show ?thesis by simp
  next
    case skipped
    with Cons.prems have "for_children c chs st = (Some r, st')" by simp
    then show ?thesis using Cons.prems(2,3) by (intro Cons.IH [of st]) simp_all
  next
    case full
    with Cons.prems(3) show ?thesis by simp
  next
    case pushed
    have fin: "finite (visited (push_child ch st))"
      using Cons.prems by (simp add: push_child_def)
    have card: "card (visited (push_child ch st)) = card (visited st) + 1"
      using Cons.prems pushed(4) by (simp add: push_child_def)
    from pushed(6) Cons.prems(1)
    have "for_children c chs (push_child ch st) = (Some r, st')" by simp
    then show ?thesis
      using fin card Cons.prems(3) by (intro Cons.IH [of "push_child ch st"]) simp_all
  qed
qed

lemma bfs_loop_small_cap:
  assumes run: "bfs_loop c (Num k) st = Some res" and small: "2 * k < int set_max_size"
  shows "finite (visited st) \<and> int (card (visited st)) \<le> 1 + 2 * iterations st
    \<longrightarrow> (\<exists>r. fst res = Inr r)"
  using run
proof (induction rule: bfs_loop_returns_induct)
  case (empty st)
  show ?case by auto
next
  case (capped st x y rest)
  show ?case by auto
next
  case (ended st x y rest r st3)
  have k: "k < 2 ^ 53" using small by (simp add: set_max_size_def)
  show ?case
  proof
    assume inv: "finite (visited st) \<and> int (card (visited st)) \<le> 1 + 2 * iterations st"
    have "iterations st + 1 \<le> k" using finite_cap_increment(2) [OF k ended(2)] .
    with inv small have "int (card (visited st)) + 2 \<le> int set_max_size" by simp
    then have "card (visited (shifted st)) + length [(x + y, y), (x, x + y)] \<le> set_max_size"
      by (simp add: shifted_def)
    moreover have "finite (visited (shifted st))" using inv by (simp add: shifted_def)
    ultimately have "r = Inr True"
      using for_children_no_overflow [OF ended(3)] by blast
    then show "\<exists>r'. fst (r, st3) = Inr r'" by auto
  qed
next
  case (pass st x y rest st3 res)
  have k: "k < 2 ^ 53" using small by (simp add: set_max_size_def)
  show ?case
  proof
    assume inv: "finite (visited st) \<and> int (card (visited st)) \<le> 1 + 2 * iterations st"
    then have fin: "finite (visited (shifted st))" by (simp add: shifted_def)
    from for_children_card [OF fin, of c "[(x + y, y), (x, x + y)]"] pass(3)
    have fin3: "finite (visited st3)" and "card (visited st3) \<le> card (visited (shifted st)) + 2"
      by simp_all
    then have card3: "card (visited st3) \<le> card (visited st) + 2" by (simp add: shifted_def)
    have "iterations st3 = iterations (shifted st)"
      using for_children_iterations [of c "[(x + y, y), (x, x + y)]" "shifted st"] pass(3)
      by simp
    then have "iterations st3 = iterations st + 1"
      using finite_cap_increment(1) [OF k pass(2)] by (simp add: shifted_def)
    with card3 inv have "int (card (visited st3)) \<le> 1 + 2 * iterations st3" by simp
    with fin3 pass(4) show "\<exists>r. fst res = Inr r" by simp
  qed
qed

lemma bfs_loop_returns:
  assumes "2 * k < int set_max_size"
  shows "\<exists>r st. bfs_loop c (Num k) (bfs_init a b) = Some (Inr r, st)"
proof -
  obtain res where run: "bfs_loop c (Num k) (bfs_init a b) = Some res"
    using bfs_loop_ends [OF bfs_init_finite] by blast
  from bfs_loop_small_cap [OF run assms] obtain r where "fst res = Inr r"
    by (auto simp: bfs_init_finite bfs_init_card bfs_init_iterations)
  with run show ?thesis by (cases res) auto
qed

lemma canReachBruteForce_total:
  assumes "2 * k < int set_max_size"
  shows "\<exists>r. canReachBruteForce a b c (Num k) = Some (Inr r)"
proof -
  obtain r st where "bfs_loop c (Num k) (bfs_init a b) = Some (Inr r, st)"
    using bfs_loop_returns [OF assms] by blast
  then show ?thesis
    by (auto simp: canReachBruteForce_def)
qed

text \<open>
  Claim C7 (the Reference Search Engine never raises): for all integers \<open>a\<close>, \<open>b\<close>,
  \<open>c\<close>, non-positive ones included, \<^verbatim>\<open>canReachBruteForce(a,b,c)\<close> returns a boolean.
  In particular \<^verbatim>\<open>shift()\<close> is never called on an empty queue, and under the default
  cap the visited set stays below the capacity of a \<^verbatim>\<open>Set\<close>.
\<close>

theorem canReachBruteForce_never_raises:
  "\<exists>r. canReachBruteForce a b c default_maxIterations = Some (Inr r)"
  unfolding default_maxIterations_def
  by (rule canReachBruteForce_total) (simp add: set_max_size_def)

subsection \<open>Keys determine unordered pairs\<close>

lemma canon_key_unordered: "canon_key p = pair_key (fst (unordered p)) (snd (unordered p))"
  by (cases p) (simp add: canon_key_def unordered_def min_def max_def)

lemma unordered_eq_canon_key: "unordered p = unordered q \<Longrightarrow> canon_key p = canon_key q"
  by (simp add: canon_key_unordered)

lemma digit_cases:
  assumes "d < (10::nat)"
  shows "d = 0 \<or> d = 1 \<or> d = 2 \<or> d = 3 \<or> d = 4 \<or> d = 5 \<or> d = 6 \<or> d = 7 \<or> d = 8 \<or> d = 9"
  using assms by arith

lemma digit_val_digit_char: "d < 10 \<Longrightarrow> digit_val (digit_char d) = d"
  using digit_cases [of d] by (auto simp: digit_val_def digit_char_def)

lemma digit_char_plain:
  "d < 10 \<Longrightarrow> digit_char d \<noteq> CHR '','' \<and> digit_char d \<noteq> CHR ''-''"
  using digit_cases [of d] by (auto simp: digit_char_def)

lemma undec_dec_nat: "undec (dec_nat n) = n"
proof (induction n rule: dec_nat.induct)
  case (1 n)
  show ?case
  proof (cases "n < 10")
    case True
    then show ?thesis
      by (subst dec_nat.simps) (simp add: undec_def digit_val_digit_char)
  next
    case False
    then have "undec (dec_nat (n div 10)) = n div 10"
      using 1 by simp
    then have "undec (dec_nat (n div 10) @ [digit_char (n mod 10)]) = 10 * (n div 10) + n mod 10"
      by (simp add: undec_def digit_val_digit_char)
    with False show ?thesis
      by (subst dec_nat.simps) simp
  qed
qed

lemma dec_nat_inj: "dec_nat n = dec_nat m \<Longrightarrow> n = m"
  by (metis undec_dec_nat)

lemma dec_nat_plain:
  "dec_nat n \<noteq> [] \<and> CHR '','' \<notin> set (dec_nat n) \<and> CHR ''-'' \<notin> set (dec_nat n)"
proof (induction n rule: dec_nat.induct)
  case (1 n)
  show ?case
  proof (cases "n < 10")
    case True
    then show ?thesis
      using digit_char_plain [of n] by (subst (1 2 3) dec_nat.simps) auto
  next
    case False
    then show ?thesis
      using 1 digit_char_plain [of "n mod 10"] by (subst (1 2 3) dec_nat.simps) auto
  qed
qed

lemma bigint_to_string_inj:
  assumes "bigint_to_string i = bigint_to_string j"
  shows "i = j"
proof -
  have no_minus: "dec_nat n \<noteq> CHR ''-'' # s" for n s
  proof
    assume "dec_nat n = CHR ''-'' # s"
    then have "CHR ''-'' \<in> set (dec_nat n)" by simp
    then show False using dec_nat_plain [of n] by simp
  qed
  consider "i < 0" "j < 0" | "i < 0" "\<not> j < 0" | "\<not> i < 0" "j < 0" | "\<not> i < 0" "\<not> j < 0"
    by blast
  then show ?thesis
  proof cases
    case 1
    with assms have "dec_nat (nat (- i)) = dec_nat (nat (- j))"
      by (simp add: bigint_to_string_def)
    then have "nat (- i) = nat (- j)" by (rule dec_nat_inj)
    with 1 show ?thesis by simp
  next
    case 2
    with assms no_minus [of "nat j" "dec_nat (nat (- i))"] show ?thesis
      by (simp add: bigint_to_string_def)
  next
    case 3
    with assms no_minus [of "nat i" "dec_nat (nat (- j))"] show ?thesis
      by (simp add: bigint_to_string_def)
  next
    case 4
    with assms have "dec_nat (nat i) = dec_nat (nat j)"
      by (simp add: bigint_to_string_def)
    then have "nat i = nat j" by (rule dec_nat_inj)
    with 4 show ?thesis by simp
  qed
qed

lemma bigint_to_string_no_comma: "CHR '','' \<notin> set (bigint_to_string i)"
  using dec_nat_plain by (simp add: bigint_to_string_def)

lemma split_at_separator:
  assumes "c \<notin> set xs" "c \<notin> set xs'" "xs @ c # ys = xs' @ c # ys'"
  shows "xs = xs' \<and> ys = ys'"
  using assms
proof (induction xs arbitrary: xs')
  case Nil
  then show ?case by (cases xs') auto
next
  case (Cons a as)
  then show ?case by (cases xs') auto
qed

lemma pair_key_inj:
  assumes "pair_key x y = pair_key u v"
  shows "x = u \<and> y = v"
proof -
  have "bigint_to_string x @ CHR '','' # bigint_to_string y =
        bigint_to_string u @ CHR '','' # bigint_to_string v"
    using assms by (simp add: pair_key_def)
  then have "bigint_to_string x = bigint_to_string u \<and> bigint_to_string y = bigint_to_string v"
    by (intro split_at_separator [OF bigint_to_string_no_comma bigint_to_string_no_comma])
  then show ?thesis
    by (simp add: bigint_to_string_inj)
qed

lemma canon_key_eq_unordered:
  assumes "canon_key p = canon_key q"
  shows "unordered p = unordered q"
  using pair_key_inj [of "fst (unordered p)" "snd (unordered p)" "fst (unordered q)" "snd (unordered q)"]
    assms
  by (simp add: canon_key_unordered prod_eq_iff)

subsection \<open>Where a target occurs below a pair\<close>

lemma occurs_at_swap: "occurs_at c d (y, x) = occurs_at c d (x, y)"
proof (induction d arbitrary: x y)
  case 0
  show ?case by auto
next
  case (Suc d)
  have "occurs_at c d (y + x, x) = occurs_at c d (x, x + y)"
    using Suc [of "y + x" x] by (simp add: add.commute)
  moreover have "occurs_at c d (y, y + x) = occurs_at c d (x + y, y)"
    using Suc [of y "y + x"] by (simp add: add.commute)
  ultimately show ?case by auto
qed

lemma occurs_at_unordered: "occurs_at c d (unordered p) = occurs_at c d p"
  by (cases p) (auto simp: unordered_def min_def max_def occurs_at_swap)

lemma occurs_at_same_key:
  assumes "canon_key p = canon_key q"
  shows "occurs_at c d p = occurs_at c d q"
  using canon_key_eq_unordered [OF assms] occurs_at_unordered [of c d p]
    occurs_at_unordered [of c d q]
  by simp

lemma occurs_at_above:
  assumes "0 \<le> c" "c < x" "c < y"
  shows "\<not> occurs_at c d (x, y)"
  using assms
proof (induction d arbitrary: x y)
  case 0
  then show ?case by simp
next
  case (Suc d)
  have "\<not> occurs_at c d (x + y, y)"
    using Suc.prems by (intro Suc.IH) simp_all
  moreover have "\<not> occurs_at c d (x, x + y)"
    using Suc.prems by (intro Suc.IH) simp_all
  ultimately show ?case by simp
qed

lemma occurs_at_walk:
  assumes "fst (walk ms p) = c \<or> snd (walk ms p) = c"
  shows "occurs_at c (length ms) p"
  using assms
proof (induction ms p rule: walk.induct)
  case (1 p)
  then show ?case by (cases p) simp
next
  case (2 ms x y)
  then show ?case by simp
next
  case (3 ms x y)
  then show ?case by simp
qed

subsection \<open>The iteration cap\<close>

lemma visit_child_shift_log: "shift_log (snd (visit_child c ch st)) = shift_log st"
  by (cases rule: visit_child_cases [of ch c st]) (simp_all add: push_child_def)

lemma for_children_shift_log:
  "shift_log (snd (for_children c chs st)) = shift_log st"
proof (induction chs arbitrary: st)
  case Nil
  show ?case by simp
next
  case (Cons ch chs)
  show ?case
    using Cons [of "snd (visit_child c ch st)"] visit_child_shift_log [of c ch st]
    by (cases "visit_child c ch st") (auto split: option.splits)
qed









lemmas bfs_eval = canReachBruteForce_def bfs_loop.simps bfs_init_def visit_child_def Let_def
   pair_key_def bigint_to_string_def dec_nat.simps digit_char_def exceeds_def increment_def
   set_max_size_def


subsection \<open>Where the cap does not trigger\<close>

lemma chain_step:
  assumes "queue st = [(2, k)]" "5 \<le> k"
    and "\<forall>s \<in> visited st. \<exists>j. j \<le> k \<and> s = pair_key 2 j"
  shows "for_children 3 [(2 + k, k), (2, 2 + k)] (shifted st) =
           (if set_max_size \<le> card (visited st) then (Some (Inl RangeError), shifted st)
            else (None, push_child (2, 2 + k) (shifted st)))"
proof -
  have fresh: "canon_key (2, 2 + k) \<notin> visited (shifted st)"
  proof
    assume "canon_key (2, 2 + k) \<in> visited (shifted st)"
    then have "pair_key 2 (2 + k) \<in> visited st"
      using assms(2) by (simp add: canon_key_def shifted_def)
    with assms(3) obtain j where j: "j \<le> k" "pair_key 2 (2 + k) = pair_key 2 j"
      by blast
    from pair_key_inj [OF j(2)] j(1) show False by simp
  qed
  have vis: "visited (shifted st) = visited st" by (simp add: shifted_def)
  have 1: "visit_child 3 (2 + k, k) (shifted st) = (None, shifted st)"
    using assms(2) by (simp add: visit_child_eq)
  have 2: "visit_child 3 (2, 2 + k) (shifted st) =
      (if set_max_size \<le> card (visited st) then (Some (Inl RangeError), shifted st)
       else (None, push_child (2, 2 + k) (shifted st)))"
    using assms(2) fresh by (simp add: visit_child_eq vis)
  show ?thesis by (simp add: 1 2)
qed

lemma chain_state_next:
  assumes "chain_state st" "queue st = (x, y) # rest"
  shows "if set_max_size \<le> card (visited st)
    then for_children 3 [(x + y, y), (x, x + y)] (shifted st) = (Some (Inl RangeError), shifted st)
    else \<exists>st3. for_children 3 [(x + y, y), (x, x + y)] (shifted st) = (None, st3) \<and>
           chain_state st3"
proof -
  from assms(1) obtain k where k: "queue st = [(2, k)]" "5 \<le> k"
      "\<forall>s \<in> visited st. \<exists>j. j \<le> k \<and> s = pair_key 2 j" "finite (visited st)"
      "int (card (visited st)) = iterations st + 1" "card (visited st) \<le> set_max_size"
    unfolding chain_state_def by blast
  from k(1) assms(2) have xy: "x = 2" "y = k" by simp_all
  let ?st3 = "push_child (2, 2 + k) (shifted st)"
  note step = chain_step [OF k(1,2,3)]
  show ?thesis
  proof (cases "set_max_size \<le> card (visited st)")
    case True
    with step show ?thesis unfolding xy by simp
  next
    case False
    have q3: "queue ?st3 = [(2, 2 + k)]"
      using k(1) by (simp add: push_child_def shifted_def)
    have v3: "\<exists>j. j \<le> 2 + k \<and> s = pair_key 2 j" if "s \<in> visited ?st3" for s
    proof (cases "s = pair_key 2 (2 + k)")
      case True
      then show ?thesis by blast
    next
      case False
      with that k(2) have "s \<in> visited st"
        by (simp add: push_child_def shifted_def canon_key_def)
      with k(3) obtain j where "j \<le> k" "s = pair_key 2 j" by blast
      then have "j \<le> 2 + k \<and> s = pair_key 2 j" by simp
      then show ?thesis ..
    qed
    have fresh: "pair_key 2 (2 + k) \<notin> visited st"
    proof
      assume "pair_key 2 (2 + k) \<in> visited st"
      with k(3) obtain j where j: "j \<le> k" "pair_key 2 (2 + k) = pair_key 2 j" by blast
      from pair_key_inj [OF j(2)] j(1) show False by simp
    qed
    have "int (card (visited st)) \<le> 2 ^ 24"
      using k(6) by (simp add: set_max_size_def)
    with k(5) have "iterations st < 2 ^ 53" by simp
    then have inc: "increment (iterations st) = iterations st + 1"
      by (simp add: increment_def)
    have f3: "finite (visited ?st3)"
      using k(4) by (simp add: push_child_def shifted_def)
    have c3: "card (visited ?st3) = card (visited st) + 1"
      using k(2,4) fresh by (simp add: push_child_def shifted_def canon_key_def)
    have i3: "int (card (visited ?st3)) = iterations ?st3 + 1"
      unfolding c3 using k(5) inc by (simp add: push_child_def shifted_def)
    have m3: "card (visited ?st3) \<le> set_max_size"
      unfolding c3 using False by simp
    have "chain_state ?st3"
      unfolding chain_state_def using q3 k(2) v3 f3 i3 m3
      by (intro exI [of _ "2 + k"]) simp
    with step False show ?thesis unfolding xy by simp
  qed
qed

lemma chain_ends_full:
  assumes run: "bfs_loop 3 m st = Some res"
    and cap: "\<And>i. i \<le> 2 ^ 24 \<Longrightarrow> \<not> exceeds i m"
  shows "chain_state st \<longrightarrow> fst res = Inl RangeError"
  using run
proof (induction rule: bfs_loop_returns_induct)
  case (empty st)
  then show ?case by (auto simp: chain_state_def)
next
  case (capped st x y rest)
  show ?case
  proof
    assume "chain_state st"
    then have "int (card (visited st)) = iterations st + 1" "card (visited st) \<le> set_max_size"
      by (auto simp: chain_state_def)
    then have "iterations st + 1 \<le> 2 ^ 24" by (simp add: set_max_size_def)
    then have "increment (iterations st) \<le> 2 ^ 24" by (simp add: increment_def)
    with cap capped(2)
    show "fst (Inr False, st\<lparr>iterations := increment (iterations st)\<rparr>) = Inl RangeError"
      by blast
  qed
next
  case (ended st x y rest r st3)
  show ?case
  proof
    assume "chain_state st"
    from chain_state_next [OF this ended(1)] ended(3)
    show "fst (r, st3) = Inl RangeError"
      by (cases "set_max_size \<le> card (visited st)") auto
  qed
next
  case (pass st x y rest st3 res)
  show ?case
  proof
    assume "chain_state st"
    from chain_state_next [OF this pass(1)] pass(3) have "chain_state st3"
      by (cases "set_max_size \<le> card (visited st)") auto
    with pass(4) show "fst res = Inl RangeError" by simp
  qed
qed

lemma chain_state_init: "chain_state (bfs_init 2 5)"
proof -
  have "\<exists>j. j \<le> (5::int) \<and> pair_key 2 5 = pair_key 2 j"
    by (intro exI [of _ 5]) simp
  then show ?thesis
    unfolding chain_state_def
    by (intro exI [of _ 5]) (simp add: bfs_init_def Let_def set_max_size_def)
qed

lemma canReachBruteForce_uncapped:
  assumes "\<And>i. i \<le> 2 ^ 24 \<Longrightarrow> \<not> exceeds i m"
  shows "canReachBruteForce 2 5 3 m = Some (Inl RangeError)"
proof -
  obtain res st where run: "bfs_loop 3 m (bfs_init 2 5) = Some (res, st)"
    using bfs_loop_ends [OF bfs_init_finite, of 3 m 2 5] by fastforce
  from chain_ends_full [OF run assms] chain_state_init have "res = Inl RangeError"
    by simp
  with run show ?thesis by (simp add: canReachBruteForce_def)
qed

text \<open>
  A search that ends by the exception of a full visited set: the start pair \<open>(2, 5)\<close>
  with target 3 only ever has the one pair \<open>(2, 5 + 2 * i)\<close> in its queue, which is never
  pruned because its first coordinate is below the target. Each pass adds one key, and
  the pass that finds \<open>2 ^ 24\<close> keys in the set raises. That is how the call ends under
  \<^verbatim>\<open>Infinity\<close>, under \<^verbatim>\<open>NaN\<close>, and under a finite cap that the counter has not exceeded
  by then.
\<close>

lemma canReachBruteForce_visited_set_full:
  "canReachBruteForce 2 5 3 PosInfinity = Some (Inl RangeError)"
  "canReachBruteForce 2 5 3 NaN = Some (Inl RangeError)"
  "canReachBruteForce 2 5 3 (Num (2 ^ 53)) = Some (Inl RangeError)"
  "canReachBruteForce 2 5 3 (Num 20000000) = Some (Inl RangeError)"
  by (rule canReachBruteForce_uncapped, simp add: exceeds_def)+

subsection \<open>Soundness of a positive answer\<close>

lemma visit_child_queue:
  "set (queue (snd (visit_child c ch st))) \<subseteq> insert ch (set (queue st))"
  by (cases rule: visit_child_cases [of ch c st]) (auto simp: push_child_def)

lemma for_children_queue:
  "set (queue (snd (for_children c chs st))) \<subseteq> set (queue st) \<union> set chs"
proof (induction chs arbitrary: st)
  case Nil
  show ?case by simp
next
  case (Cons ch chs)
  obtain ro st1 where v: "visit_child c ch st = (ro, st1)" by (cases "visit_child c ch st")
  have q1: "set (queue st1) \<subseteq> insert ch (set (queue st))"
    using visit_child_queue [of c ch st] v by simp
  show ?case
  proof (cases ro)
    case None
    with v Cons [of st1] q1 show ?thesis by auto
  next
    case (Some r)
    with v q1 show ?thesis by auto
  qed
qed

lemma bfs_loop_sound:
  assumes run: "bfs_loop c m st = Some (Inr True, st')"
    and gen: "\<forall>p \<in> set (queue st). generated a b p"
  shows "\<exists>x y. generated a b (x, y) \<and> (x = c \<or> y = c)"
proof -
  have "(\<forall>p \<in> set (queue st). generated a b p) \<longrightarrow> fst res = Inr True \<longrightarrow>
        (\<exists>x y. generated a b (x, y) \<and> (x = c \<or> y = c))"
    if "bfs_loop c m st = Some res" for res
    using that
  proof (induction rule: bfs_loop_returns_induct)
    case (empty st)
    show ?case by simp
  next
    case (capped st x y rest)
    show ?case by simp
  next
    case (ended st x y rest r st3)
    show ?case
    proof (intro impI)
      assume "\<forall>p \<in> set (queue st). generated a b p" and "fst (r, st3) = Inr True"
      with ended(1) have xy: "generated a b (x, y)" and r: "r = Inr True" by simp_all
      from xy have kids: "generated a b (x + y, y)" "generated a b (x, x + y)"
        by (rule generated.add_to_first, rule generated.add_to_second)
      from for_children_found [OF ended(3)] r
      have "\<exists>ch \<in> set [(x + y, y), (x, x + y)]. fst ch = c \<or> snd ch = c" by simp
      with kids show "\<exists>x y. generated a b (x, y) \<and> (x = c \<or> y = c)" by auto
    qed
  next
    case (pass st x y rest st3 res)
    show ?case
    proof (intro impI)
      assume all: "\<forall>p \<in> set (queue st). generated a b p" and r: "fst res = Inr True"
      from all pass(1) have "generated a b (x, y)" by simp
      then have kids: "generated a b (x + y, y)" "generated a b (x, x + y)"
        by (rule generated.add_to_first, rule generated.add_to_second)
      have "set (queue st3) \<subseteq> set (queue (shifted st)) \<union> {(x + y, y), (x, x + y)}"
        using for_children_queue [of c "[(x + y, y), (x, x + y)]" "shifted st"] pass(3) by simp
      moreover have "set (queue (shifted st)) \<subseteq> set (queue st)"
        using pass(1) by (simp add: shifted_def subset_insertI)
      ultimately have "\<forall>q \<in> set (queue st3). generated a b q"
        using all kids by auto
      with pass(4) r show "\<exists>x y. generated a b (x, y) \<and> (x = c \<or> y = c)" by simp
    qed
  qed
  from this [OF run] gen show ?thesis by simp
qed

lemma canReachBruteForce_sound:
  assumes "canReachBruteForce a b c maxIterations = Some (Inr True)"
  shows "reachable a b c"
proof (cases "c = a \<or> c = b")
  case True
  then show ?thesis by (auto simp: reachable_def)
next
  case False
  from assms False obtain st where "bfs_loop c maxIterations (bfs_init a b) = Some (Inr True, st)"
    by (auto simp: canReachBruteForce_def split: if_splits option.splits)
  moreover have "\<forall>p \<in> set (queue (bfs_init a b)). generated a b p"
    by (simp add: bfs_init_def Let_def generated.start)
  ultimately have "\<exists>x y. generated a b (x, y) \<and> (x = c \<or> y = c)"
    by (rule bfs_loop_sound)
  then show ?thesis by (simp add: reachable_def)
qed

text \<open>
  Claim C9 (soundness of positive answers): if \<^verbatim>\<open>canReachBruteForce(a,b,c)\<close> returns
  true then \<open>c\<close> is reachable: it is \<open>a\<close> or \<open>b\<close>, or a coordinate of a pair obtained
  from \<open>(a, b)\<close> by finitely many steps \<open>(x, y) \<mapsto> (x + y, y)\<close> and
  \<open>(x, y) \<mapsto> (x, x + y)\<close>. This holds for every cap and needs no positivity.
\<close>

theorem canReachBruteForce_true_sound:
  assumes "canReachBruteForce a b c maxIterations = Some (Inr True)"
  shows "reachable a b c"
  using assms by (rule canReachBruteForce_sound)

theorem canReachBruteForce_true_sound_witness:
  "canReachBruteForce 3 5 11 default_maxIterations = Some (Inr True) \<and> reachable 3 5 11"
proof -
  have run: "canReachBruteForce 3 5 11 default_maxIterations = Some (Inr True)"
    by (simp add: bfs_eval default_maxIterations_def)
  from run canReachBruteForce_true_sound [OF run] show ?thesis by simp
qed

subsection \<open>The history of a search\<close>

lemma strict_chain_below_last:
  assumes "sorted_wrt (\<subset>) xs" "x \<in> set xs"
  shows "x \<subseteq> last xs"
proof (cases xs rule: rev_cases)
  case Nil
  with assms show ?thesis by simp
next
  case (snoc ys y)
  with assms show ?thesis
    by (auto simp: sorted_wrt_append)
qed

lemma history_ok_init: "history_ok (a, b) (bfs_init a b)"
  by (simp add: history_ok_def bfs_init_def Let_def enqueued_def visited_history_def
      canon_key_def)

lemma history_ok_push:
  assumes ok: "history_ok root s" and fresh: "canon_key ch \<notin> visited s"
  shows "history_ok root (push_child ch s)"
proof -
  let ?s' = "push_child ch s"
  let ?V = "insert (canon_key ch) (visited s)"
  have enq: "enqueued root ?s' = enqueued root s @ [ch]"
    by (simp add: enqueued_def push_child_def)
  have hist: "visited_history root ?s' = visited_history root s @ [?V]"
    by (simp add: visited_history_def push_child_def)
  have vis: "visited ?s' = ?V"
    by (simp add: push_child_def)
  have log: "push_log ?s' = push_log s @ [(ch, ?V)]"
    by (simp add: push_child_def)
  have v: "visited s = canon_key ` set (enqueued root s)"
    and d: "distinct (map unordered (enqueued root s))"
    and l: "list_all (\<lambda>(p, V). canon_key p \<in> V) (push_log s)"
    and so: "sorted_wrt (\<subset>) (visited_history root s)"
    and la: "last (visited_history root s) = visited s"
    using ok by (simp_all add: history_ok_def)
  have 1: "visited ?s' = canon_key ` set (enqueued root ?s')"
    unfolding vis enq using v by auto
  have "unordered ch \<notin> unordered ` set (enqueued root s)"
  proof
    assume "unordered ch \<in> unordered ` set (enqueued root s)"
    then obtain q where q: "q \<in> set (enqueued root s)" "unordered ch = unordered q"
      by auto
    from q(2) have "canon_key ch = canon_key q" by (rule unordered_eq_canon_key)
    with q(1) v have "canon_key ch \<in> visited s" by auto
    with fresh show False by simp
  qed
  with d have 2: "distinct (map unordered (enqueued root ?s'))"
    unfolding enq by simp
  have 3: "list_all (\<lambda>(p, V). canon_key p \<in> V) (push_log ?s')"
    unfolding log using l by simp
  have "x \<subset> ?V" if "x \<in> set (visited_history root s)" for x
  proof -
    have "x \<subseteq> visited s"
      using strict_chain_below_last [OF so that] la by simp
    with fresh show ?thesis by auto
  qed
  with so have 4: "sorted_wrt (\<subset>) (visited_history root ?s')"
    unfolding hist by (simp add: sorted_wrt_append)
  have 5: "last (visited_history root ?s') = visited ?s'"
    unfolding hist vis by simp
  from 1 2 3 4 5 show ?thesis
    unfolding history_ok_def by (simp only: simp_thms)
qed

lemma history_ok_shifted: "history_ok root s \<Longrightarrow> history_ok root (shifted s)"
  by (simp add: history_ok_def shifted_def enqueued_def visited_history_def)

lemma history_ok_stop:
  "history_ok root s \<Longrightarrow> history_ok root (s\<lparr>iterations := increment (iterations s)\<rparr>)"
  by (simp add: history_ok_def enqueued_def visited_history_def)

text \<open>
  Claim C10 (no duplicate exploration): in the state with which the search loop of a call
  ends (for any cap, and whether the call returns or raises), whose logs hold the whole
  history of the call, every pair pushed onto the queue had
  its canonical key in the visited set at the moment of the push; the start pair and the
  pairs pushed are pairwise different as unordered pairs; and the values the visited set
  took, from its seeding with the start key on, form a strictly increasing chain that ends
  in the final visited set.
\<close>

theorem canReachBruteForce_no_duplicate_exploration:
  assumes "bfs_loop c maxIterations (bfs_init a b) = Some (res, st)"
  shows "list_all (\<lambda>(p, V). canon_key p \<in> V) (push_log st) \<and>
         distinct (map unordered (enqueued (a, b) st)) \<and>
         sorted_wrt (\<subset>) (visited_history (a, b) st) \<and>
         hd (visited_history (a, b) st) = visited (bfs_init a b) \<and>
         last (visited_history (a, b) st) = visited st"
proof -
  have "history_ok (a, b) st"
  proof (rule bfs_loop_preserves [where P = "history_ok (a, b)", OF _ _ _ _ assms])
    show "history_ok (a, b) (bfs_init a b)" by (rule history_ok_init)
  qed (simp_all add: history_ok_push history_ok_shifted history_ok_stop)
  moreover have "hd (visited_history (a, b) st) = visited (bfs_init a b)"
    by (simp add: visited_history_def bfs_init_def Let_def canon_key_def)
  ultimately show ?thesis
    by (simp add: history_ok_def)
qed

theorem canReachBruteForce_no_duplicate_exploration_witness:
  "\<exists>res st. bfs_loop 55 default_maxIterations (bfs_init 10 15) = Some (res, st) \<and>
      length (push_log st) = 6 \<and>
      list_all (\<lambda>(p, V). canon_key p \<in> V) (push_log st) \<and>
      distinct (map unordered (enqueued (10, 15) st)) \<and>
      sorted_wrt (\<subset>) (visited_history (10, 15) st) \<and>
      last (visited_history (10, 15) st) = visited st"
proof -
  obtain res st
    where run: "bfs_loop 55 default_maxIterations (bfs_init 10 15) = Some (res, st)"
    using bfs_loop_ends [OF bfs_init_finite, of 55 default_maxIterations 10 15] by fastforce
  have "length (push_log (snd (the
      (bfs_loop 55 default_maxIterations (bfs_init 10 15))))) = 6"
    by (simp add: bfs_eval default_maxIterations_def)
  with run have "length (push_log st) = 6" by simp
  with run canReachBruteForce_no_duplicate_exploration [OF run] show ?thesis by blast
qed

subsection \<open>Completeness of the search within its budget\<close>

lemma level_splitI:
  assumes "queue st = A @ B"
    and "iterations st + int (length A) \<le> 2 ^ (j + 1) - 1"
    and "int (length B) + 2 * int (length A) + int (length todo) \<le> 2 ^ (j + 1)"
    and "1 \<le> m" and "j + m \<le> D"
    and "(\<exists>p \<in> set A. occurs_at c m p) \<or>
      (\<exists>p \<in> set B. occurs_at c m p \<and> j + 1 + m \<le> D) \<or>
      (\<exists>q \<in> set todo. occurs_at c (m - 1) q)"
    and "\<And>q d. q \<in> set (enqueued root st) \<Longrightarrow> d < m \<Longrightarrow> \<not> occurs_at c d q"
    and "\<And>q d. q \<in> set todo \<Longrightarrow> d + 1 < m \<Longrightarrow> \<not> occurs_at c d q"
    and "visited st = canon_key ` set (enqueued root st)"
    and "set (queue st) \<subseteq> set (enqueued root st)"
  shows "level_split c D root todo st j m A B"
  unfolding level_split_def using assms by blast

lemma level_splitD:
  assumes "level_split c D root todo st j m A B"
  shows "queue st = A @ B"
    and "iterations st + int (length A) \<le> 2 ^ (j + 1) - 1"
    and "int (length B) + 2 * int (length A) + int (length todo) \<le> 2 ^ (j + 1)"
    and "1 \<le> m" and "j + m \<le> D"
    and "(\<exists>p \<in> set A. occurs_at c m p) \<or>
      (\<exists>p \<in> set B. occurs_at c m p \<and> j + 1 + m \<le> D) \<or>
      (\<exists>q \<in> set todo. occurs_at c (m - 1) q)"
    and "\<And>q d. q \<in> set (enqueued root st) \<Longrightarrow> d < m \<Longrightarrow> \<not> occurs_at c d q"
    and "\<And>q d. q \<in> set todo \<Longrightarrow> d + 1 < m \<Longrightarrow> \<not> occurs_at c d q"
    and "visited st = canon_key ` set (enqueued root st)"
    and "set (queue st) \<subseteq> set (enqueued root st)"
  using assms unfolding level_split_def by blast+

lemma enqueued_push_child: "enqueued root (push_child ch st) = enqueued root st @ [ch]"
  by (simp add: enqueued_def push_child_def)

lemma occurs_at_0: "occurs_at c 0 p \<longleftrightarrow> fst p = c \<or> snd p = c"
  by (cases p) simp

lemma occurs_at_Suc:
  "occurs_at c (Suc d) p \<longleftrightarrow>
     occurs_at c d (fst p + snd p, snd p) \<or> occurs_at c d (fst p, fst p + snd p)"
  by (cases p) simp

lemma skipped_not_target:
  assumes c: "0 \<le> c"
    and skip: "(c < fst ch \<and> c < snd ch) \<or> canon_key ch \<in> visited st"
    and vis: "visited st = canon_key ` set (enqueued root st)"
    and far: "\<And>q d. q \<in> set (enqueued root st) \<Longrightarrow> d < m \<Longrightarrow> \<not> occurs_at c d q"
    and m: "1 \<le> m"
  shows "\<not> occurs_at c (m - 1) ch"
  using skip
proof
  assume "c < fst ch \<and> c < snd ch"
  then show ?thesis
    using occurs_at_above [OF c, of "fst ch" "snd ch" "m - 1"] by simp
next
  assume "canon_key ch \<in> visited st"
  with vis obtain q where q: "q \<in> set (enqueued root st)" "canon_key ch = canon_key q"
    by auto
  have "m - 1 < m" using m by simp
  with q(1) have "\<not> occurs_at c (m - 1) q" by (rule far)
  with occurs_at_same_key [OF q(2)] show ?thesis by simp
qed

lemma visit_child_pending:
  assumes c: "0 \<le> c" and inv: "pending_inv c D root (ch # todo) st"
  shows "(\<exists>r. visit_child c ch st = (Some r, st)) \<or>
         (\<exists>st'. visit_child c ch st = (None, st') \<and> pending_inv c D root todo st')"
proof -
  from inv obtain j m A B where ls: "level_split c D root (ch # todo) st j m A B"
    unfolding pending_inv_def by blast
  note d = level_splitD [OF ls]
  show ?thesis
  proof (cases rule: visit_child_cases [of ch c st])
    case found
    then show ?thesis by simp
  next
    case full
    then show ?thesis by simp
  next
    case skipped
    have no: "\<not> occurs_at c (m - 1) ch"
      using c skipped(3) d(9) d(7) d(4) by (rule skipped_not_target)
    have "level_split c D root todo st j m A B"
    proof (rule level_splitI)
      show "queue st = A @ B" by (rule d(1))
      show "iterations st + int (length A) \<le> 2 ^ (j + 1) - 1" by (rule d(2))
      show "int (length B) + 2 * int (length A) + int (length todo) \<le> 2 ^ (j + 1)"
        using d(3) by simp
      show "1 \<le> m" by (rule d(4))
      show "j + m \<le> D" by (rule d(5))
      show "(\<exists>p \<in> set A. occurs_at c m p) \<or>
        (\<exists>p \<in> set B. occurs_at c m p \<and> j + 1 + m \<le> D) \<or>
        (\<exists>q \<in> set todo. occurs_at c (m - 1) q)"
        using d(6) no by auto
      show "\<not> occurs_at c e q" if "q \<in> set (enqueued root st)" "e < m" for q e
        using that by (rule d(7))
      show "\<not> occurs_at c e q" if "q \<in> set todo" "e + 1 < m" for q e
        using that d(8) [of q e] by simp
      show "visited st = canon_key ` set (enqueued root st)" by (rule d(9))
      show "set (queue st) \<subseteq> set (enqueued root st)" by (rule d(10))
    qed
    then have "pending_inv c D root todo st"
      unfolding pending_inv_def by blast
    with skipped(4) show ?thesis by simp
  next
    case pushed
    let ?st = "push_child ch st"
    have enq: "enqueued root ?st = enqueued root st @ [ch]"
      by (rule enqueued_push_child)
    have q': "queue ?st = A @ (B @ [ch])"
      using d(1) by (simp add: push_child_def)
    have it': "iterations ?st = iterations st"
      by (simp add: push_child_def)
    have vis': "visited ?st = canon_key ` set (enqueued root ?st)"
      unfolding enq using d(9) by (simp add: push_child_def)
    have sub': "set (queue ?st) \<subseteq> set (enqueued root ?st)"
      unfolding enq using d(10) by (auto simp: push_child_def)
    have cnt': "int (length (B @ [ch])) + 2 * int (length A) + int (length todo) \<le> 2 ^ (j + 1)"
      using d(3) by simp
    have ch0: "\<not> occurs_at c 0 ch"
      using pushed(1,2) by (simp add: occurs_at_0)
    have ch_far: "\<not> occurs_at c e ch" if "e + 1 < m" for e
      using that d(8) [of ch e] by simp
    show ?thesis
    proof (cases "occurs_at c (m - 1) ch")
      case True
      with ch0 have m2: "1 \<le> m - 1"
        by (cases "m - 1") auto
      have "level_split c D root todo ?st j (m - 1) A (B @ [ch])"
      proof (rule level_splitI)
        show "queue ?st = A @ B @ [ch]" by (rule q')
        show "iterations ?st + int (length A) \<le> 2 ^ (j + 1) - 1"
          unfolding it' by (rule d(2))
        show "int (length (B @ [ch])) + 2 * int (length A) + int (length todo) \<le> 2 ^ (j + 1)"
          by (rule cnt')
        show "1 \<le> m - 1" by (rule m2)
        show "j + (m - 1) \<le> D" using d(5) by simp
        have "j + 1 + (m - 1) \<le> D" using d(5) m2 by simp
        with True show "(\<exists>p \<in> set A. occurs_at c (m - 1) p) \<or>
          (\<exists>p \<in> set (B @ [ch]). occurs_at c (m - 1) p \<and> j + 1 + (m - 1) \<le> D) \<or>
          (\<exists>q \<in> set todo. occurs_at c (m - 1 - 1) q)"
          by auto
        show "\<not> occurs_at c e q" if "q \<in> set (enqueued root ?st)" "e < m - 1" for q e
        proof (cases "q = ch")
          case True
          with that(2) ch_far [of e] show ?thesis by simp
        next
          case False
          with that(1) have "q \<in> set (enqueued root st)" unfolding enq by simp
          moreover have "e < m" using that(2) by simp
          ultimately show ?thesis by (rule d(7))
        qed
        show "\<not> occurs_at c e q" if "q \<in> set todo" "e + 1 < m - 1" for q e
          using that d(8) [of q e] by simp
        show "visited ?st = canon_key ` set (enqueued root ?st)" by (rule vis')
        show "set (queue ?st) \<subseteq> set (enqueued root ?st)" by (rule sub')
      qed
      then have "pending_inv c D root todo ?st"
        unfolding pending_inv_def by blast
      with pushed(6) show ?thesis by simp
    next
      case False
      have "level_split c D root todo ?st j m A (B @ [ch])"
      proof (rule level_splitI)
        show "queue ?st = A @ B @ [ch]" by (rule q')
        show "iterations ?st + int (length A) \<le> 2 ^ (j + 1) - 1"
          unfolding it' by (rule d(2))
        show "int (length (B @ [ch])) + 2 * int (length A) + int (length todo) \<le> 2 ^ (j + 1)"
          by (rule cnt')
        show "1 \<le> m" by (rule d(4))
        show "j + m \<le> D" by (rule d(5))
        show "(\<exists>p \<in> set A. occurs_at c m p) \<or>
          (\<exists>p \<in> set (B @ [ch]). occurs_at c m p \<and> j + 1 + m \<le> D) \<or>
          (\<exists>q \<in> set todo. occurs_at c (m - 1) q)"
          using d(6) False by auto
        show "\<not> occurs_at c e q" if "q \<in> set (enqueued root ?st)" "e < m" for q e
        proof (cases "q = ch")
          case True
          show ?thesis
          proof (cases "e + 1 < m")
            case True
            with \<open>q = ch\<close> ch_far [of e] show ?thesis by simp
          next
            case False
            with that(2) have "e = m - 1" by simp
            with \<open>q = ch\<close> \<open>\<not> occurs_at c (m - 1) ch\<close> show ?thesis by simp
          qed
        next
          case False
          with that(1) have "q \<in> set (enqueued root st)" unfolding enq by simp
          then show ?thesis using that(2) by (rule d(7))
        qed
        show "\<not> occurs_at c e q" if "q \<in> set todo" "e + 1 < m" for q e
          using that d(8) [of q e] by simp
        show "visited ?st = canon_key ` set (enqueued root ?st)" by (rule vis')
        show "set (queue ?st) \<subseteq> set (enqueued root ?st)" by (rule sub')
      qed
      then have "pending_inv c D root todo ?st"
        unfolding pending_inv_def by blast
      with pushed(6) show ?thesis by simp
    qed
  qed
qed

lemma for_children_pending:
  assumes c: "0 \<le> c" and inv: "pending_inv c D root chs st"
  shows "(\<exists>r st'. for_children c chs st = (Some r, st')) \<or>
         (\<exists>st'. for_children c chs st = (None, st') \<and> pending_inv c D root [] st')"
  using inv
proof (induction chs arbitrary: st)
  case Nil
  then show ?case by simp
next
  case (Cons ch chs)
  from visit_child_pending [OF c Cons.prems]
  show ?case
  proof
    assume "\<exists>r. visit_child c ch st = (Some r, st)"
    then show ?thesis by auto
  next
    assume "\<exists>st'. visit_child c ch st = (None, st') \<and> pending_inv c D root chs st'"
    then obtain st1 where v: "visit_child c ch st = (None, st1)"
      and p: "pending_inv c D root chs st1"
      by blast
    from Cons.IH [OF p] v show ?thesis by simp
  qed
qed

lemma pending_front:
  assumes "pending_inv c D root [] st"
  shows "\<exists>j m A B. A \<noteq> [] \<and> level_split c D root [] st j m A B"
proof -
  from assms obtain j m A B where ls: "level_split c D root [] st j m A B"
    unfolding pending_inv_def by blast
  note d = level_splitD [OF ls]
  show ?thesis
  proof (cases "A = []")
    case False
    with ls show ?thesis by blast
  next
    case True
    with d(6) obtain p where p: "p \<in> set B" "occurs_at c m p" "j + 1 + m \<le> D"
      by auto
    have two: "(2::int) ^ (j + 1 + 1) = 2 * 2 ^ (j + 1)" by simp
    have "level_split c D root [] st (j + 1) m B []"
    proof (rule level_splitI)
      show "queue st = B @ []" using d(1) True by simp
      show "iterations st + int (length B) \<le> 2 ^ (j + 1 + 1) - 1"
        unfolding two using d(2,3) True by simp
      show "int (length ([]::(int \<times> int) list)) + 2 * int (length B) + int (length ([]::(int \<times> int) list))
          \<le> 2 ^ (j + 1 + 1)"
        unfolding two using d(3) True by simp
      show "1 \<le> m" by (rule d(4))
      show "j + 1 + m \<le> D" by (rule p(3))
      show "(\<exists>p \<in> set B. occurs_at c m p) \<or>
        (\<exists>p \<in> set []. occurs_at c m p \<and> j + 1 + 1 + m \<le> D) \<or>
        (\<exists>q \<in> set []. occurs_at c (m - 1) q)"
        using p by blast
      show "\<not> occurs_at c e q" if "q \<in> set (enqueued root st)" "e < m" for q e
        using that by (rule d(7))
      show "\<not> occurs_at c e q" if "q \<in> set []" "e + 1 < m" for q e
        using that by simp
      show "visited st = canon_key ` set (enqueued root st)" by (rule d(9))
      show "set (queue st) \<subseteq> set (enqueued root st)" by (rule d(10))
    qed
    moreover have "B \<noteq> []" using p(1) by auto
    ultimately show ?thesis by blast
  qed
qed

lemma enqueued_shifted: "enqueued root (shifted st) = enqueued root st"
  by (simp add: enqueued_def shifted_def)

lemma pending_dequeue:
  assumes inv: "pending_inv c D root [] st" and small: "(2::int) ^ D \<le> 2 ^ 53"
  shows "\<exists>x y rest. queue st = (x, y) # rest \<and> iterations st + 1 \<le> 2 ^ D - 1 \<and>
           increment (iterations st) = iterations st + 1 \<and>
           pending_inv c D root [(x + y, y), (x, x + y)] (shifted st)"
proof -
  from pending_front [OF inv] obtain j m A B
    where ne: "A \<noteq> []" and ls: "level_split c D root [] st j m A B"
    by blast
  note d = level_splitD [OF ls]
  from ne obtain p A' where A: "A = p # A'" by (cases A) auto
  obtain x y where p: "p = (x, y)" by (cases p)
  have q: "queue st = (x, y) # (A' @ B)"
    using d(1) A p by simp
  have "j + 1 \<le> D" using d(4,5) by simp
  then have "(2::int) ^ (j + 1) \<le> 2 ^ D"
    by (intro power_increasing) simp_all
  moreover have "iterations st + 1 \<le> 2 ^ (j + 1) - 1"
    using d(2) A by simp
  ultimately have cap: "iterations st + 1 \<le> 2 ^ D - 1" by simp
  with small have inc: "increment (iterations st) = iterations st + 1"
    by (simp add: increment_def)
  have p_enq: "(x, y) \<in> set (enqueued root st)"
    using d(10) q by auto
  have "level_split c D root [(x + y, y), (x, x + y)] (shifted st) j m A' B"
  proof (rule level_splitI)
    show "queue (shifted st) = A' @ B"
      using q by (simp add: shifted_def)
    show "iterations (shifted st) + int (length A') \<le> 2 ^ (j + 1) - 1"
      using d(2) A inc by (simp add: shifted_def)
    show "int (length B) + 2 * int (length A') + int (length [(x + y, y), (x, x + y)])
        \<le> 2 ^ (j + 1)"
      using d(3) A by simp
    show "1 \<le> m" by (rule d(4))
    show "j + m \<le> D" by (rule d(5))
    show "(\<exists>p \<in> set A'. occurs_at c m p) \<or>
      (\<exists>p \<in> set B. occurs_at c m p \<and> j + 1 + m \<le> D) \<or>
      (\<exists>q \<in> set [(x + y, y), (x, x + y)]. occurs_at c (m - 1) q)"
    proof (cases "occurs_at c m (x, y)")
      case True
      obtain m0 where m0: "m = Suc m0"
        using d(4) by (cases m) auto
      with True have "occurs_at c m0 (x + y, y) \<or> occurs_at c m0 (x, x + y)"
        by simp
      with m0 show ?thesis by auto
    next
      case False
      with d(6) A p show ?thesis by auto
    qed
    show "\<not> occurs_at c e q" if "q \<in> set (enqueued root (shifted st))" "e < m" for q e
      using that d(7) [of q e] by (simp add: enqueued_shifted)
    show "\<not> occurs_at c e q" if "q \<in> set [(x + y, y), (x, x + y)]" "e + 1 < m" for q e
    proof
      assume "occurs_at c e q"
      with that(1) have "occurs_at c (Suc e) (x, y)" by auto
      moreover have "Suc e < m" using that(2) by simp
      ultimately show False using d(7) [OF p_enq] by blast
    qed
    show "visited (shifted st) = canon_key ` set (enqueued root (shifted st))"
      unfolding enqueued_shifted using d(9) by (simp add: shifted_def)
    show "set (queue (shifted st)) \<subseteq> set (enqueued root (shifted st))"
      unfolding enqueued_shifted using d(10) q by (auto simp: shifted_def)
  qed
  then have "pending_inv c D root [(x + y, y), (x, x + y)] (shifted st)"
    unfolding pending_inv_def by blast
  with q cap inc show ?thesis by blast
qed

text \<open>
  While a pair at the least distance from the target is pending and the budget covers
  the levels down to it, the search does not give up: it ends neither on an empty queue
  nor on the cap.
\<close>

lemma bfs_loop_finds:
  assumes c: "0 \<le> c" and k: "k < 2 ^ 53" and budget: "2 ^ D - 1 \<le> k"
    and run: "bfs_loop c (Num k) st = Some res"
  shows "pending_inv c D root [] st \<longrightarrow> fst res \<noteq> Inr False"
proof -
  have small: "(2::int) ^ D \<le> 2 ^ 53"
    using k budget by simp
  show ?thesis
    using run
  proof (induction rule: bfs_loop_returns_induct)
    case (empty st)
    show ?case
    proof
      assume "pending_inv c D root [] st"
      from pending_dequeue [OF this small] empty show "fst (Inr False, st) \<noteq> Inr False"
        by auto
    qed
  next
    case (capped st x y rest)
    show ?case
    proof
      assume "pending_inv c D root [] st"
      from pending_dequeue [OF this small]
      have "iterations st + 1 \<le> 2 ^ D - 1" "increment (iterations st) = iterations st + 1"
        by auto
      with budget capped(2)
      show "fst (Inr False, st\<lparr>iterations := increment (iterations st)\<rparr>) \<noteq> Inr False"
        by (simp add: exceeds_def)
    qed
  next
    case (ended st x y rest r st3)
    from for_children_found [OF ended(3)] show ?case by auto
  next
    case (pass st x y rest st3 res)
    show ?case
    proof
      assume "pending_inv c D root [] st"
      from pending_dequeue [OF this small] pass(1)
      have "pending_inv c D root [(x + y, y), (x, x + y)] (shifted st)" by auto
      from for_children_pending [OF c this] pass(3)
      have "pending_inv c D root [] st3" by auto
      with pass(4) show "fst res \<noteq> Inr False" by simp
    qed
  qed
qed

lemma pending_inv_init:
  assumes ne: "c \<noteq> a" "c \<noteq> b" and occ: "occurs_at c D (a, b)"
  shows "pending_inv c D (a, b) [] (bfs_init a b)"
proof -
  define m where "m = (LEAST d. occurs_at c d (a, b))"
  have hit: "occurs_at c m (a, b)"
    unfolding m_def using occ by (rule LeastI)
  have le: "m \<le> D"
    unfolding m_def using occ by (rule Least_le)
  have least: "\<not> occurs_at c e (a, b)" if "e < m" for e
    using that unfolding m_def by (rule not_less_Least)
  have "m \<noteq> 0"
  proof
    assume "m = 0"
    with hit ne show False by simp
  qed
  then have m1: "1 \<le> m" by simp
  have enq: "enqueued (a, b) (bfs_init a b) = [(a, b)]"
    by (simp add: enqueued_def bfs_init_def Let_def)
  have "level_split c D (a, b) [] (bfs_init a b) 0 m [(a, b)] []"
  proof (rule level_splitI)
    show "queue (bfs_init a b) = [(a, b)] @ []"
      by (simp add: bfs_init_def Let_def)
    show "iterations (bfs_init a b) + int (length [(a, b)]) \<le> 2 ^ (0 + 1) - 1"
      by (simp add: bfs_init_def Let_def)
    show "int (length ([]::(int \<times> int) list)) + 2 * int (length [(a, b)])
        + int (length ([]::(int \<times> int) list)) \<le> 2 ^ (0 + 1)"
      by simp
    show "1 \<le> m" by (rule m1)
    show "0 + m \<le> D" using le by simp
    show "(\<exists>p \<in> set [(a, b)]. occurs_at c m p) \<or>
      (\<exists>p \<in> set []. occurs_at c m p \<and> 0 + 1 + m \<le> D) \<or>
      (\<exists>q \<in> set []. occurs_at c (m - 1) q)"
      using hit by simp
    show "\<not> occurs_at c e q" if "q \<in> set (enqueued (a, b) (bfs_init a b))" "e < m" for q e
      using that least [of e] unfolding enq by simp
    show "\<not> occurs_at c e q" if "q \<in> set []" "e + 1 < m" for q e
      using that by simp
    show "visited (bfs_init a b) = canon_key ` set (enqueued (a, b) (bfs_init a b))"
      unfolding enq by (simp add: bfs_init_def Let_def canon_key_def)
    show "set (queue (bfs_init a b)) \<subseteq> set (enqueued (a, b) (bfs_init a b))"
      unfolding enq by (simp add: bfs_init_def Let_def)
  qed
  then show ?thesis
    unfolding pending_inv_def by blast
qed

lemma canReachBruteForce_complete:
  assumes c: "0 \<le> c" and occ: "occurs_at c D (a, b)"
    and k: "2 * k < int set_max_size" and budget: "2 ^ D - 1 \<le> k"
  shows "canReachBruteForce a b c (Num k) = Some (Inr True)"
proof (cases "c = a \<or> c = b")
  case True
  then show ?thesis by (auto simp: canReachBruteForce_def)
next
  case False
  have nb: "\<not> (c < a \<and> c < b)"
    using occurs_at_above [OF c, of a b D] occ by blast
  have k': "k < 2 ^ 53" using k by (simp add: set_max_size_def)
  have inv: "pending_inv c D (a, b) [] (bfs_init a b)"
    using False occ by (intro pending_inv_init) simp_all
  obtain r st' where run: "bfs_loop c (Num k) (bfs_init a b) = Some (Inr r, st')"
    using bfs_loop_returns [OF k] by blast
  from bfs_loop_finds [OF c k' budget run] inv have r by simp
  with run False nb show ?thesis
    by (simp add: canReachBruteForce_def)
qed

lemma canReachBruteForce_walk:
  assumes "0 \<le> c" "fst (walk ms (a, b)) = c \<or> snd (walk ms (a, b)) = c"
    and "2 * k < int set_max_size" "2 ^ length ms - 1 \<le> k"
  shows "canReachBruteForce a b c (Num k) = Some (Inr True)"
  using assms(1) occurs_at_walk [OF assms(2)] assms(3,4) by (rule canReachBruteForce_complete)

subsection \<open>Unreachable targets\<close>

lemma combination_sum:
  fixes a b x y :: int
  assumes "x = a \<or> (\<exists>m n. 1 \<le> m \<and> 1 \<le> n \<and> x = m * a + n * b)"
    and "y = b \<or> (\<exists>m n. 1 \<le> m \<and> 1 \<le> n \<and> y = m * a + n * b)"
  shows "\<exists>m n. 1 \<le> m \<and> 1 \<le> n \<and> x + y = m * a + n * b"
proof -
  from assms(1) obtain m1 n1 :: int where x: "1 \<le> m1" "0 \<le> n1" "x = m1 * a + n1 * b"
  proof
    assume "x = a"
    then have "x = 1 * a + 0 * b" by simp
    then show thesis using that [of 1 0] by simp
  next
    assume "\<exists>m n. 1 \<le> m \<and> 1 \<le> n \<and> x = m * a + n * b"
    then obtain m n where "1 \<le> m" "1 \<le> n" "x = m * a + n * b" by blast
    then show thesis using that [of m n] by simp
  qed
  from assms(2) obtain m2 n2 :: int where y: "0 \<le> m2" "1 \<le> n2" "y = m2 * a + n2 * b"
  proof
    assume "y = b"
    then have "y = 0 * a + 1 * b" by simp
    then show thesis using that [of 0 1] by simp
  next
    assume "\<exists>m n. 1 \<le> m \<and> 1 \<le> n \<and> y = m * a + n * b"
    then obtain m n where "1 \<le> m" "1 \<le> n" "y = m * a + n * b" by blast
    then show thesis using that [of m n] by simp
  qed
  have "x + y = (m1 + m2) * a + (n1 + n2) * b"
    using x(3) y(3) by (simp add: algebra_simps)
  moreover have "1 \<le> m1 + m2" "1 \<le> n1 + n2"
    using x y by simp_all
  ultimately show ?thesis by blast
qed

lemma generated_combination:
  assumes "generated a b p"
  shows "(fst p = a \<or> (\<exists>m n. 1 \<le> m \<and> 1 \<le> n \<and> fst p = m * a + n * b)) \<and>
         (snd p = b \<or> (\<exists>m n. 1 \<le> m \<and> 1 \<le> n \<and> snd p = m * a + n * b))"
  using assms
proof (induction rule: generated.induct)
  case start
  show ?case by simp
next
  case (add_to_first x y)
  then have "\<exists>m n. 1 \<le> m \<and> 1 \<le> n \<and> x + y = m * a + n * b"
    by (intro combination_sum) simp_all
  with add_to_first(2) show ?case by simp
next
  case (add_to_second x y)
  then have "\<exists>m n. 1 \<le> m \<and> 1 \<le> n \<and> x + y = m * a + n * b"
    by (intro combination_sum) simp_all
  with add_to_second(2) show ?case by simp
qed

lemma reachable_combination:
  assumes "reachable a b c"
  shows "c = a \<or> c = b \<or> (\<exists>m n. 1 \<le> m \<and> 1 \<le> n \<and> c = m * a + n * b)"
proof -
  from assms consider "c = a \<or> c = b"
    | x y where "generated a b (x, y)" "x = c \<or> y = c"
    unfolding reachable_def by blast
  then show ?thesis
  proof cases
    case 1
    then show ?thesis by blast
  next
    case 2
    from generated_combination [OF 2(1)] 2(2) show ?thesis by auto
  qed
qed

lemma not_reachable_below_sum:
  assumes "0 < a" "0 < b" "c \<noteq> a" "c \<noteq> b" "c < a + b"
  shows "\<not> reachable a b c"
proof
  assume "reachable a b c"
  from reachable_combination [OF this] assms(3,4)
  obtain m n where mn: "1 \<le> m" "1 \<le> n" "c = m * a + n * b" by blast
  have "1 * a \<le> m * a" using mn(1) assms(1) by (intro mult_right_mono) simp_all
  moreover have "1 * b \<le> n * b" using mn(2) assms(2) by (intro mult_right_mono) simp_all
  ultimately have "a + b \<le> c" using mn(3) by simp
  with assms(5) show False by simp
qed

lemma canReachBruteForce_unreachable:
  assumes "\<not> reachable a b c" "2 * k < int set_max_size"
  shows "canReachBruteForce a b c (Num k) = Some (Inr False)"
proof -
  obtain r where r: "canReachBruteForce a b c (Num k) = Some (Inr r)"
    using canReachBruteForce_total [OF assms(2)] by blast
  have "\<not> r"
  proof
    assume r
    with r have "canReachBruteForce a b c (Num k) = Some (Inr True)" by simp
    then have "reachable a b c" by (rule canReachBruteForce_sound)
    with assms show False by simp
  qed
  with r show ?thesis by simp
qed

subsection \<open>The two engines on the test corpus\<close>

lemma corpus_01:
  "canReach 3 5 2 = Inr False"
  "canReachBruteForce 3 5 2 default_maxIterations = Some (Inr False)"
proof -
  show "canReach 3 5 2 = Inr False"
    by (simp add: canReach_eval)
  show "canReachBruteForce 3 5 2 default_maxIterations = Some (Inr False)"
    by (simp add: canReachBruteForce_def)
qed

lemma corpus_02:
  "canReach 10 15 5 = Inr False"
  "canReachBruteForce 10 15 5 default_maxIterations = Some (Inr False)"
proof -
  show "canReach 10 15 5 = Inr False"
    by (simp add: canReach_eval)
  show "canReachBruteForce 10 15 5 default_maxIterations = Some (Inr False)"
    by (simp add: canReachBruteForce_def)
qed

lemma corpus_03:
  "canReach 2 5 3 = Inr False"
  "canReachBruteForce 2 5 3 default_maxIterations = Some (Inr False)"
proof -
  show "canReach 2 5 3 = Inr False"
    by (simp add: canReach_eval)
  show "canReachBruteForce 2 5 3 default_maxIterations = Some (Inr False)"
    unfolding default_maxIterations_def
    by (rule canReachBruteForce_unreachable, rule not_reachable_below_sum)
      (simp_all add: set_max_size_def)
qed

lemma corpus_04:
  "canReach 2 5 4 = Inr False"
  "canReachBruteForce 2 5 4 default_maxIterations = Some (Inr False)"
proof -
  show "canReach 2 5 4 = Inr False"
    by (simp add: canReach_eval)
  show "canReachBruteForce 2 5 4 default_maxIterations = Some (Inr False)"
    unfolding default_maxIterations_def
    by (rule canReachBruteForce_unreachable, rule not_reachable_below_sum)
      (simp_all add: set_max_size_def)
qed

lemma corpus_05:
  "canReach 2 3 4 = Inr False"
  "canReachBruteForce 2 3 4 default_maxIterations = Some (Inr False)"
proof -
  show "canReach 2 3 4 = Inr False"
    by (simp add: canReach_eval)
  show "canReachBruteForce 2 3 4 default_maxIterations = Some (Inr False)"
    unfolding default_maxIterations_def
    by (rule canReachBruteForce_unreachable, rule not_reachable_below_sum)
      (simp_all add: set_max_size_def)
qed

lemma corpus_06:
  "canReach 2 3 6 = Inr False"
  "canReachBruteForce 2 3 6 default_maxIterations = Some (Inr False)"
proof -
  show "canReach 2 3 6 = Inr False"
    by (simp add: canReach_eval)
  show "canReachBruteForce 2 3 6 default_maxIterations = Some (Inr False)"
    unfolding default_maxIterations_def
  proof (rule canReachBruteForce_unreachable)
    show "2 * 1000000 < int set_max_size" by (simp add: set_max_size_def)
    show "\<not> reachable 2 3 6"
    proof
      assume "reachable 2 3 6"
      from reachable_combination [OF this]
      obtain m n :: int where "1 \<le> m" "1 \<le> n" "6 = m * 2 + n * 3" by auto
      then show False by presburger
    qed
  qed
qed

lemma corpus_07:
  "canReach 3 5 4 = Inr False"
  "canReachBruteForce 3 5 4 default_maxIterations = Some (Inr False)"
proof -
  show "canReach 3 5 4 = Inr False"
    by (simp add: canReach_eval)
  show "canReachBruteForce 3 5 4 default_maxIterations = Some (Inr False)"
    unfolding default_maxIterations_def
    by (rule canReachBruteForce_unreachable, rule not_reachable_below_sum)
      (simp_all add: set_max_size_def)
qed

lemma corpus_08:
  "canReach 3 5 6 = Inr False"
  "canReachBruteForce 3 5 6 default_maxIterations = Some (Inr False)"
proof -
  show "canReach 3 5 6 = Inr False"
    by (simp add: canReach_eval)
  show "canReachBruteForce 3 5 6 default_maxIterations = Some (Inr False)"
    unfolding default_maxIterations_def
    by (rule canReachBruteForce_unreachable, rule not_reachable_below_sum)
      (simp_all add: set_max_size_def)
qed

lemma corpus_09:
  "canReach 3 5 7 = Inr False"
  "canReachBruteForce 3 5 7 default_maxIterations = Some (Inr False)"
proof -
  show "canReach 3 5 7 = Inr False"
    by (simp add: canReach_eval)
  show "canReachBruteForce 3 5 7 default_maxIterations = Some (Inr False)"
    unfolding default_maxIterations_def
    by (rule canReachBruteForce_unreachable, rule not_reachable_below_sum)
      (simp_all add: set_max_size_def)
qed

lemma corpus_10:
  "canReach 10 15 25 = Inr True"
  "canReachBruteForce 10 15 25 default_maxIterations = Some (Inr True)"
proof -
  show "canReach 10 15 25 = Inr True"
    by (simp add: canReach_eval)
  show "canReachBruteForce 10 15 25 default_maxIterations = Some (Inr True)"
    unfolding default_maxIterations_def
    by (rule canReachBruteForce_walk [where ms = "[L]"])
      (simp_all add: set_max_size_def)
qed

lemma corpus_11:
  "canReach 10 15 35 = Inr True"
  "canReachBruteForce 10 15 35 default_maxIterations = Some (Inr True)"
proof -
  show "canReach 10 15 35 = Inr True"
    by (simp add: canReach_eval)
  show "canReachBruteForce 10 15 35 default_maxIterations = Some (Inr True)"
    unfolding default_maxIterations_def
    by (rule canReachBruteForce_walk [where ms = "[R, L]"])
      (simp_all add: set_max_size_def)
qed

lemma corpus_12:
  "canReach 10 15 55 = Inr True"
  "canReachBruteForce 10 15 55 default_maxIterations = Some (Inr True)"
proof -
  show "canReach 10 15 55 = Inr True"
    by (simp add: canReach_eval)
  show "canReachBruteForce 10 15 55 default_maxIterations = Some (Inr True)"
    unfolding default_maxIterations_def
    by (rule canReachBruteForce_walk [where ms = "[L, L, L]"])
      (simp_all add: set_max_size_def)
qed

lemma corpus_13:
  "canReach 100 150 250 = Inr True"
  "canReachBruteForce 100 150 250 default_maxIterations = Some (Inr True)"
proof -
  show "canReach 100 150 250 = Inr True"
    by (simp add: canReach_eval)
  show "canReachBruteForce 100 150 250 default_maxIterations = Some (Inr True)"
    unfolding default_maxIterations_def
    by (rule canReachBruteForce_walk [where ms = "[L]"])
      (simp_all add: set_max_size_def)
qed

lemma corpus_14:
  "canReach 100 150 350 = Inr True"
  "canReachBruteForce 100 150 350 default_maxIterations = Some (Inr True)"
proof -
  show "canReach 100 150 350 = Inr True"
    by (simp add: canReach_eval)
  show "canReachBruteForce 100 150 350 default_maxIterations = Some (Inr True)"
    unfolding default_maxIterations_def
    by (rule canReachBruteForce_walk [where ms = "[R, L]"])
      (simp_all add: set_max_size_def)
qed

lemma corpus_15:
  "canReach 5 7 123 = Inr True"
  "canReachBruteForce 5 7 123 default_maxIterations = Some (Inr True)"
proof -
  show "canReach 5 7 123 = Inr True"
    by (simp add: canReach_eval)
  show "canReachBruteForce 5 7 123 default_maxIterations = Some (Inr True)"
    unfolding default_maxIterations_def
    by (rule canReachBruteForce_walk [where ms = "[L, L, R, L, L, L, L]"])
      (simp_all add: set_max_size_def)
qed

lemma corpus_16:
  "canReach 5 7 1000 = Inr True"
  "canReachBruteForce 5 7 1000 default_maxIterations = Some (Inr True)"
proof -
  show "canReach 5 7 1000 = Inr True"
    by (simp add: canReach_eval)
  show "canReachBruteForce 5 7 1000 default_maxIterations = Some (Inr True)"
    unfolding default_maxIterations_def
    by (rule canReachBruteForce_walk [where ms = "[L, R, R, L, L, R, L, R, R, R, R, L]"])
      (simp_all add: set_max_size_def)
qed

lemma corpus_17:
  "canReach 5 7 5000 = Inr True"
  "canReachBruteForce 5 7 5000 default_maxIterations = Some (Inr True)"
proof -
  show "canReach 5 7 5000 = Inr True"
    by (simp add: canReach_eval)
  show "canReachBruteForce 5 7 5000 default_maxIterations = Some (Inr True)"
    unfolding default_maxIterations_def
    by (rule canReachBruteForce_walk [where ms = "[L, R, L, L, R, L, R, L, R, L, R, R, L, L]"])
      (simp_all add: set_max_size_def)
qed

lemma corpus_18:
  "canReach 11 13 2500 = Inr True"
  "canReachBruteForce 11 13 2500 default_maxIterations = Some (Inr True)"
proof -
  show "canReach 11 13 2500 = Inr True"
    by (simp add: canReach_eval)
  show "canReachBruteForce 11 13 2500 default_maxIterations = Some (Inr True)"
    unfolding default_maxIterations_def
    by (rule canReachBruteForce_walk [where ms = "[L, R, R, R, L, L, L, L, L, R, L, R, L]"])
      (simp_all add: set_max_size_def)
qed

lemma corpus_19:
  "canReach 17 23 3000 = Inr True"
  "canReachBruteForce 17 23 3000 default_maxIterations = Some (Inr True)"
proof -
  show "canReach 17 23 3000 = Inr True"
    by (simp add: canReach_eval)
  show "canReachBruteForce 17 23 3000 default_maxIterations = Some (Inr True)"
    unfolding default_maxIterations_def
    by (rule canReachBruteForce_walk [where ms = "[L, L, L, R, L, L, L, R, R, R, R, R, R, L]"])
      (simp_all add: set_max_size_def)
qed

lemma corpus_20:
  "canReach 3 7 10 = Inr True"
  "canReachBruteForce 3 7 10 default_maxIterations = Some (Inr True)"
proof -
  show "canReach 3 7 10 = Inr True"
    by (simp add: canReach_eval)
  show "canReachBruteForce 3 7 10 default_maxIterations = Some (Inr True)"
    unfolding default_maxIterations_def
    by (rule canReachBruteForce_walk [where ms = "[L]"])
      (simp_all add: set_max_size_def)
qed

lemma corpus_21:
  "canReach 3 7 17 = Inr True"
  "canReachBruteForce 3 7 17 default_maxIterations = Some (Inr True)"
proof -
  show "canReach 3 7 17 = Inr True"
    by (simp add: canReach_eval)
  show "canReachBruteForce 3 7 17 default_maxIterations = Some (Inr True)"
    unfolding default_maxIterations_def
    by (rule canReachBruteForce_walk [where ms = "[L, L]"])
      (simp_all add: set_max_size_def)
qed

lemma corpus_22:
  "canReach 3 7 73 = Inr True"
  "canReachBruteForce 3 7 73 default_maxIterations = Some (Inr True)"
proof -
  show "canReach 3 7 73 = Inr True"
    by (simp add: canReach_eval)
  show "canReachBruteForce 3 7 73 default_maxIterations = Some (Inr True)"
    unfolding default_maxIterations_def
    by (rule canReachBruteForce_walk [where ms = "[R, R, R, L, R, R, L]"])
      (simp_all add: set_max_size_def)
qed

lemma corpus_23:
  "canReach 3 7 13 = Inr True"
  "canReachBruteForce 3 7 13 default_maxIterations = Some (Inr True)"
proof -
  show "canReach 3 7 13 = Inr True"
    by (simp add: canReach_eval)
  show "canReachBruteForce 3 7 13 default_maxIterations = Some (Inr True)"
    unfolding default_maxIterations_def
    by (rule canReachBruteForce_walk [where ms = "[R, L]"])
      (simp_all add: set_max_size_def)
qed

lemma corpus_24:
  "canReach 3 7 12344 = Inr True"
  "canReachBruteForce 3 7 12344 default_maxIterations = Some (Inr True)"
proof -
  show "canReach 3 7 12344 = Inr True"
    by (simp add: canReach_eval)
  show "canReachBruteForce 3 7 12344 default_maxIterations = Some (Inr True)"
    unfolding default_maxIterations_def
    by (rule canReachBruteForce_walk [where ms = "[L, L, L, R, R, L, R, L, R, R, L, L, R, R, L, R, L]"])
      (simp_all add: set_max_size_def)
qed

lemmas corpus_results =
  corpus_01 corpus_02 corpus_03 corpus_04 corpus_05 corpus_06
  corpus_07 corpus_08 corpus_09 corpus_10 corpus_11 corpus_12
  corpus_13 corpus_14 corpus_15 corpus_16 corpus_17 corpus_18
  corpus_19 corpus_20 corpus_21 corpus_22 corpus_23 corpus_24

text \<open>
  Claim C1 (agreement of the two engines): every triple of the harness's test corpus is
  positive, and on it \<^verbatim>\<open>canReach\<close> and \<^verbatim>\<open>canReachBruteForce\<close>, the latter with its
  default cap as the harness calls it, return the same boolean; so the harness ends with
  48 passed checks and no failed one.
\<close>

theorem engines_agree_on_corpus:
  "list_all
     (\<lambda>(a, b, c). 0 < a \<and> 0 < b \<and> 0 < c \<and>
        (\<exists>r. canReach a b c = Inr r \<and>
             canReachBruteForce a b c default_maxIterations = Some (Inr r)))
     test_corpus \<and>
   run_tests = Some \<lparr>passed = 48, failed = 0\<rparr>"
proof -
  have agree: "list_all
     (\<lambda>(a, b, c). 0 < a \<and> 0 < b \<and> 0 < c \<and>
        (\<exists>r. canReach a b c = Inr r \<and>
             canReachBruteForce a b c default_maxIterations = Some (Inr r)))
     test_corpus"
    unfolding test_corpus_def by (auto simp: corpus_results)
  have tally: "run_tests = Some \<lparr>passed = 48, failed = 0\<rparr>"
    unfolding run_tests_def test_corpus_def by (simp add: test_def corpus_results)
  from agree tally show ?thesis by (intro conjI)
qed

theorem engines_agree_on_corpus_witness:
  "\<exists>r. canReach 3 7 12344 = Inr r \<and>
       canReachBruteForce 3 7 12344 default_maxIterations = Some (Inr r)"
  using engines_agree_on_corpus by (simp add: test_corpus_def)

end
